theory Spec2Isabelle
  imports Main "HOL-Library.Char_ord" "HOL-Library.Word"
begin

section \<open>The token vocabulary (token/token.go)\<close>

text \<open>
  A Go \<open>byte\<close> is an 8-bit value, as an Isabelle \<open>char\<close> is; a Go \<open>string\<close> is a
  sequence of bytes, here a \<open>char list\<close>. \<open>TokenType\<close> is declared as a string type and
  the tags are string constants, so they are modelled as such. The tag \<open>INT\<close> is named
  \<open>INT_tok\<close> because \<open>INT\<close> is reserved notation of HOL.
\<close>

type_synonym byte = char
type_synonym TokenType = string

record Token =
  Type :: TokenType
  Literal :: string

definition ILLEGAL :: TokenType where "ILLEGAL = ''ILLEGAL''"
definition EOF :: TokenType where "EOF = ''EOF''"
definition IDENT :: TokenType where "IDENT = ''IDENT''"
definition INT_tok :: TokenType where "INT_tok = ''INT''"
definition ASSIGN :: TokenType where "ASSIGN = ''=''"
definition PLUS :: TokenType where "PLUS = ''+''"
definition MINUS :: TokenType where "MINUS = ''-''"
definition BANG :: TokenType where "BANG = ''!''"
definition ASTERISK :: TokenType where "ASTERISK = ''*''"
definition SLASH :: TokenType where "SLASH = ''/''"
definition LT :: TokenType where "LT = ''<''"
definition GT :: TokenType where "GT = ''>''"
definition COMMA :: TokenType where "COMMA = '',''"
definition SEMICOLON :: TokenType where "SEMICOLON = '';''"
definition LPAREN :: TokenType where "LPAREN = ''(''"
definition RPAREN :: TokenType where "RPAREN = '')''"
definition LBRACE :: TokenType where "LBRACE = ''{''"
definition RBRACE :: TokenType where "RBRACE = ''}''"
definition FUNCTION :: TokenType where "FUNCTION = ''FUNCTION''"
definition LET :: TokenType where "LET = ''LET''"

text \<open>The table \<open>keywords\<close>; the name alone is reserved in Isabelle.\<close>

definition keywords_map :: "string \<rightharpoonup> TokenType" where
  "keywords_map = [''fn'' \<mapsto> FUNCTION, ''let'' \<mapsto> LET]"

definition LookupIdent :: "string \<Rightarrow> TokenType" where
  "LookupIdent ident = (case keywords_map ident of Some tok \<Rightarrow> tok | None \<Rightarrow> IDENT)"

section \<open>The scanner (lexer/lexer.go)\<close>

text \<open>
  The two cursors of the scanner are Go \<open>int\<close>s: signed machine integers of 32 or 64
  bits, depending on the target, whose addition wraps around. The record leaves the type
  of the cursors open, and every function below takes it as \<open>'a word\<close>, the integers of
  any width \<open>LENGTH('a)\<close>, read as signed numbers by \<open>sint\<close>; \<open>+\<close> on words wraps.
  The end-of-input sentinel is the byte 0.
\<close>

record 'i Lexer =
  input :: string
  position :: 'i
  readPosition :: 'i
  ch :: byte

text \<open>The largest value of an \<open>int\<close> of the width \<open>LENGTH('a)\<close>.\<close>

definition MaxInt :: "'a::len itself \<Rightarrow> int" where
  "MaxInt t = 2 ^ (LENGTH('a) - 1) - 1"

text \<open>
  The runtime panics of Go that the scanner's code could raise: an index outside a string,
  and slice bounds outside a string.
\<close>

datatype error = IndexOutOfRange | SliceBoundsOutOfRange

text \<open>
  \<open>s[i:j]\<close> on a Go string: the bytes from index \<open>i\<close> up to \<open>j\<close>, and a panic
  unless \<open>0 \<le> i \<le> j \<le> len(s)\<close>.
\<close>

definition slice :: "string \<Rightarrow> int \<Rightarrow> int \<Rightarrow> error + string" where
  "slice s i j =
     (if 0 \<le> i \<and> i \<le> j \<and> j \<le> int (length s) then Inr (take (nat (j - i)) (drop (nat i) s))
      else Inl SliceBoundsOutOfRange)"

text \<open>
  \<open>string(ch)\<close> for a byte \<open>ch\<close> is Go's conversion of an integer to a string
  (\<open>byte\<close> is \<open>uint8\<close>): by the language specification it yields the UTF-8
  representation of the code point with that number, and the specification's example is
  that \<open>string('\xf8')\<close> is the two bytes \<open>\xc3\xb8\<close>. Below 0x80 the result is the
  byte itself; from 0x80 to 0xFF it is the two bytes \<open>0xC0 + ch / 64\<close> and
  \<open>0x80 + ch % 64\<close>.
\<close>

definition string_of_byte :: "byte \<Rightarrow> string" where
  "string_of_byte c =
     (let n = (of_char c :: nat)
      in if n < 128 then [c]
         else [char_of (192 + n div 64), char_of (128 + n mod 64)])"

definition newToken :: "TokenType \<Rightarrow> byte \<Rightarrow> Token" where
  "newToken tokenType c = \<lparr>Type = tokenType, Literal = string_of_byte c\<rparr>"

text \<open>
  \<open>readChar\<close>. The comparison with \<open>len(l.input)\<close> is one of signed integers (the
  length of a Go string is an \<open>int\<close> that is not negative); a \<open>readPosition\<close> below
  the length is used as index, and a negative index panics. The increment of
  \<open>readPosition\<close> wraps around at the largest \<open>int\<close>.
\<close>

definition readChar :: "'a::len word Lexer \<Rightarrow> error + 'a word Lexer" where
  "readChar l =
     (if int (length (input l)) \<le> sint (readPosition l) then
        Inr (l\<lparr>ch := CHR 0x00, position := readPosition l, readPosition := readPosition l + 1\<rparr>)
      else if sint (readPosition l) < 0 then Inl IndexOutOfRange
      else
        Inr (l\<lparr>ch := input l ! nat (sint (readPosition l)), position := readPosition l,
               readPosition := readPosition l + 1\<rparr>))"

definition New :: "string \<Rightarrow> error + 'a::len word Lexer" where
  "New inp = readChar \<lparr>input = inp, position = 0, readPosition = 0, ch = CHR 0x00\<rparr>"

definition isLetter :: "byte \<Rightarrow> bool" where
  "isLetter b \<longleftrightarrow>
     CHR ''a'' \<le> b \<and> b \<le> CHR ''z'' \<or> CHR ''A'' \<le> b \<and> b \<le> CHR ''Z'' \<or> b = CHR ''_''"

definition isDigit :: "byte \<Rightarrow> bool" where
  "isDigit b \<longleftrightarrow> CHR ''0'' \<le> b \<and> b \<le> CHR ''9''"

text \<open>
  The loop condition of \<open>skipWhitespace\<close>: space, tab, newline, carriage return.
\<close>

definition isWhitespace :: "byte \<Rightarrow> bool" where
  "isWhitespace c \<longleftrightarrow> c = CHR '' '' \<or> c = CHR 0x09 \<or> c = CHR 0x0A \<or> c = CHR 0x0D"

text \<open>
  The three loops of the scanner call \<open>readChar\<close> while the current byte is accepted, and
  end with the panic of a \<open>readChar\<close> that panics. Their termination measure: no step is
  left when the current byte is refused; one step is left when \<open>readPosition\<close> is
  negative, the panic; otherwise the steps left are bounded by the distance of
  \<open>readPosition\<close> from the largest \<open>int\<close>, after which it wraps around to a negative
  number.
\<close>

definition left :: "(byte \<Rightarrow> bool) \<Rightarrow> 'a::len word Lexer \<Rightarrow> nat" where
  "left P l =
     (if P (ch l) then
        (if sint (readPosition l) < 0 then 1
         else 2 + nat (MaxInt TYPE('a) - sint (readPosition l)))
      else 0)"

function skipWhitespace :: "'a::len word Lexer \<Rightarrow> error + 'a word Lexer" where
  "skipWhitespace l =
     (if isWhitespace (ch l) then
        (case readChar l of Inl e \<Rightarrow> Inl e | Inr l' \<Rightarrow> skipWhitespace l')
      else Inr l)"
  by pat_completeness auto
termination
proof (relation "measure (left isWhitespace)")
  fix l l' :: "'a word Lexer"
  define k where "k = sint (readPosition l) + 1"
  have succ: "sint (readPosition l + 1) = signed_take_bit (LENGTH('a) - 1) k"
    using sint_word_ariths(5) [of "readPosition l"] by (simp only: word_succ_p1 k_def)
  have range: "- (2 ^ (LENGTH('a) - 1)) \<le> k" "k \<le> 2 ^ (LENGTH('a) - 1)"
    using sint_ge [of "readPosition l"] sint_lt [of "readPosition l"] by (simp_all add: k_def)
  have "sint (readPosition l + 1) = k \<or> sint (readPosition l + 1) < 0"
  proof (cases "k < 2 ^ (LENGTH('a) - 1)")
    case True
    with range(1) show ?thesis
      by (simp add: succ signed_take_bit_int_eq_self)
  next
    case False
    then have "signed_take_bit (LENGTH('a) - 1) k \<le> k - 2 ^ Suc (LENGTH('a) - 1)"
      by (intro signed_take_bit_int_less_eq) simp
    moreover have "(0::int) < 2 ^ (LENGTH('a) - 1)"
      by simp
    ultimately have "signed_take_bit (LENGTH('a) - 1) k < 0"
      using range(2) unfolding power_Suc by linarith
    then show ?thesis
      unfolding succ by (rule disjI2)
  qed
  moreover have "\<not> isWhitespace (CHR 0x00)"
    by (simp add: isWhitespace_def)
  moreover assume "isWhitespace (ch l)" and "readChar l = Inr l'"
  ultimately show "(l', l) \<in> measure (left isWhitespace)"
    using sint_lt [of "readPosition l + 1"]
    by (auto simp: left_def readChar_def MaxInt_def k_def split: if_splits)
qed simp


text \<open>The \<open>for\<close> loop of \<open>readIdentifier\<close>.\<close>

function readIdentifier_loop :: "'a::len word Lexer \<Rightarrow> error + 'a word Lexer" where
  "readIdentifier_loop l =
     (if isLetter (ch l) then
        (case readChar l of Inl e \<Rightarrow> Inl e | Inr l' \<Rightarrow> readIdentifier_loop l')
      else Inr l)"
  by pat_completeness auto
termination
proof (relation "measure (left isLetter)")
  fix l l' :: "'a word Lexer"
  define k where "k = sint (readPosition l) + 1"
  have succ: "sint (readPosition l + 1) = signed_take_bit (LENGTH('a) - 1) k"
    using sint_word_ariths(5) [of "readPosition l"] by (simp only: word_succ_p1 k_def)
  have range: "- (2 ^ (LENGTH('a) - 1)) \<le> k" "k \<le> 2 ^ (LENGTH('a) - 1)"
    using sint_ge [of "readPosition l"] sint_lt [of "readPosition l"] by (simp_all add: k_def)
  have "sint (readPosition l + 1) = k \<or> sint (readPosition l + 1) < 0"
  proof (cases "k < 2 ^ (LENGTH('a) - 1)")
    case True
    with range(1) show ?thesis
      by (simp add: succ signed_take_bit_int_eq_self)
  next
    case False
    then have "signed_take_bit (LENGTH('a) - 1) k \<le> k - 2 ^ Suc (LENGTH('a) - 1)"
      by (intro signed_take_bit_int_less_eq) simp
    moreover have "(0::int) < 2 ^ (LENGTH('a) - 1)"
      by simp
    ultimately have "signed_take_bit (LENGTH('a) - 1) k < 0"
      using range(2) unfolding power_Suc by linarith
    then show ?thesis
      unfolding succ by (rule disjI2)
  qed
  moreover have "\<not> isLetter (CHR 0x00)"
    by (simp add: isLetter_def)
  moreover assume "isLetter (ch l)" and "readChar l = Inr l'"
  ultimately show "(l', l) \<in> measure (left isLetter)"
    using sint_lt [of "readPosition l + 1"]
    by (auto simp: left_def readChar_def MaxInt_def k_def split: if_splits)
qed simp

text \<open>
  \<open>readIdentifier\<close>: the start is remembered, the loop runs, and the input is sliced
  from the start to the \<open>position\<close> reached.
\<close>

definition readIdentifier :: "'a::len word Lexer \<Rightarrow> error + (string \<times> 'a word Lexer)" where
  "readIdentifier l =
     (let position0 = position l
      in case readIdentifier_loop l of
           Inl e \<Rightarrow> Inl e
         | Inr l' \<Rightarrow>
             (case slice (input l') (sint position0) (sint (position l')) of
                Inl e \<Rightarrow> Inl e
              | Inr s \<Rightarrow> Inr (s, l')))"

text \<open>The \<open>for\<close> loop of \<open>readNumber\<close>.\<close>

function readNumber_loop :: "'a::len word Lexer \<Rightarrow> error + 'a word Lexer" where
  "readNumber_loop l =
     (if isDigit (ch l) then
        (case readChar l of Inl e \<Rightarrow> Inl e | Inr l' \<Rightarrow> readNumber_loop l')
      else Inr l)"
  by pat_completeness auto
termination
proof (relation "measure (left isDigit)")
  fix l l' :: "'a word Lexer"
  define k where "k = sint (readPosition l) + 1"
  have succ: "sint (readPosition l + 1) = signed_take_bit (LENGTH('a) - 1) k"
    using sint_word_ariths(5) [of "readPosition l"] by (simp only: word_succ_p1 k_def)
  have range: "- (2 ^ (LENGTH('a) - 1)) \<le> k" "k \<le> 2 ^ (LENGTH('a) - 1)"
    using sint_ge [of "readPosition l"] sint_lt [of "readPosition l"] by (simp_all add: k_def)
  have "sint (readPosition l + 1) = k \<or> sint (readPosition l + 1) < 0"
  proof (cases "k < 2 ^ (LENGTH('a) - 1)")
    case True
    with range(1) show ?thesis
      by (simp add: succ signed_take_bit_int_eq_self)
  next
    case False
    then have "signed_take_bit (LENGTH('a) - 1) k \<le> k - 2 ^ Suc (LENGTH('a) - 1)"
      by (intro signed_take_bit_int_less_eq) simp
    moreover have "(0::int) < 2 ^ (LENGTH('a) - 1)"
      by simp
    ultimately have "signed_take_bit (LENGTH('a) - 1) k < 0"
      using range(2) unfolding power_Suc by linarith
    then show ?thesis
      unfolding succ by (rule disjI2)
  qed
  moreover have "\<not> isDigit (CHR 0x00)"
    by (simp add: isDigit_def)
  moreover assume "isDigit (ch l)" and "readChar l = Inr l'"
  ultimately show "(l', l) \<in> measure (left isDigit)"
    using sint_lt [of "readPosition l + 1"]
    by (auto simp: left_def readChar_def MaxInt_def k_def split: if_splits)
qed simp

definition readNumber :: "'a::len word Lexer \<Rightarrow> error + (string \<times> 'a word Lexer)" where
  "readNumber l =
     (let position0 = position l
      in case readNumber_loop l of
           Inl e \<Rightarrow> Inl e
         | Inr l' \<Rightarrow>
             (case slice (input l') (sint position0) (sint (position l')) of
                Inl e \<Rightarrow> Inl e
              | Inr s \<Rightarrow> Inr (s, l')))"

text \<open>
  The last two statements of \<open>NextToken\<close>, which every branch without a \<open>return\<close> of
  its own reaches: \<open>l.readChar()\<close> and \<open>return tok\<close>.
\<close>

definition readChar_return :: "Token \<Rightarrow> 'a::len word Lexer \<Rightarrow> error + (Token \<times> 'a word Lexer)" where
  "readChar_return tok l = (case readChar l of Inl e \<Rightarrow> Inl e | Inr l' \<Rightarrow> Inr (tok, l'))"

text \<open>
  \<open>NextToken\<close> returns the token and the scanner after the call, or the panic. The
  fourteen cases of the \<open>switch\<close> come first, in the order of the source; the letter and
  digit branches return without the final \<open>readChar\<close>, every other branch runs it.
\<close>

definition NextToken :: "'a::len word Lexer \<Rightarrow> error + (Token \<times> 'a word Lexer)" where
  "NextToken l0 =
     (case skipWhitespace l0 of
        Inl e \<Rightarrow> Inl e
      | Inr l \<Rightarrow>
          if ch l = CHR ''='' then readChar_return (newToken ASSIGN (ch l)) l
          else if ch l = CHR ''+'' then readChar_return (newToken PLUS (ch l)) l
          else if ch l = CHR ''-'' then readChar_return (newToken MINUS (ch l)) l
          else if ch l = CHR ''!'' then readChar_return (newToken BANG (ch l)) l
          else if ch l = CHR ''/'' then readChar_return (newToken SLASH (ch l)) l
          else if ch l = CHR ''*'' then readChar_return (newToken ASTERISK (ch l)) l
          else if ch l = CHR ''<'' then readChar_return (newToken LT (ch l)) l
          else if ch l = CHR ''>'' then readChar_return (newToken GT (ch l)) l
          else if ch l = CHR '';'' then readChar_return (newToken SEMICOLON (ch l)) l
          else if ch l = CHR '','' then readChar_return (newToken COMMA (ch l)) l
          else if ch l = CHR ''('' then readChar_return (newToken LPAREN (ch l)) l
          else if ch l = CHR '')'' then readChar_return (newToken RPAREN (ch l)) l
          else if ch l = CHR ''{'' then readChar_return (newToken LBRACE (ch l)) l
          else if ch l = CHR ''}'' then readChar_return (newToken RBRACE (ch l)) l
          else if isLetter (ch l) then
            (case readIdentifier l of
               Inl e \<Rightarrow> Inl e
             | Inr (lit, l') \<Rightarrow> Inr (\<lparr>Type = LookupIdent lit, Literal = lit\<rparr>, l'))
          else if isDigit (ch l) then
            (case readNumber l of
               Inl e \<Rightarrow> Inl e
             | Inr (lit, l') \<Rightarrow> Inr (\<lparr>Type = INT_tok, Literal = lit\<rparr>, l'))
          else if ch l = CHR 0x00 then readChar_return \<lparr>Type = EOF, Literal = ''''\<rparr> l
          else readChar_return (newToken ILLEGAL (ch l)) l)"

text \<open>
  A caller that pulls \<open>n\<close> tokens from a scanner: the tokens in the order returned and the
  scanner after the last call. A panic in any call ends the run.
\<close>

fun NextTokens :: "nat \<Rightarrow> 'a::len word Lexer \<Rightarrow> error + (Token list \<times> 'a word Lexer)" where
  "NextTokens 0 l = Inr ([], l)"
| "NextTokens (Suc n) l =
     (case NextToken l of
        Inl e \<Rightarrow> Inl e
      | Inr (tok, l') \<Rightarrow>
          (case NextTokens n l' of
             Inl e \<Rightarrow> Inl e
           | Inr (toks, l'') \<Rightarrow> Inr (tok # toks, l'')))"

text \<open>
  A caller that constructs a scanner on \<open>inp\<close> with \<open>New\<close> and pulls \<open>n\<close> tokens.
\<close>

definition run :: "nat \<Rightarrow> string \<Rightarrow> error + (Token list \<times> 'a::len word Lexer)" where
  "run n inp = (case New inp of Inl e \<Rightarrow> Inl e | Inr l \<Rightarrow> NextTokens n l)"

section \<open>Lexemes\<close>

text \<open>
  The lexemes of an input, as the specification describes them, defined on the text alone
  and without the scanner: whitespace separates and is dropped, a lexeme is a maximal run
  of letters and underscores, a maximal run of digits, or any other single byte.
\<close>

function lexemes :: "string \<Rightarrow> string list" where
  "lexemes [] = []"
| "lexemes (c # cs) =
     (if isWhitespace c then lexemes cs
      else if isLetter c then takeWhile isLetter (c # cs) # lexemes (dropWhile isLetter cs)
      else if isDigit c then takeWhile isDigit (c # cs) # lexemes (dropWhile isDigit cs)
      else [c] # lexemes cs)"
  by pat_completeness auto
termination
  by (relation "measure length") (simp_all add: length_dropWhile_le le_imp_less_Suc)

text \<open>
  The place between two parts \<open>u\<close> and \<open>v\<close> of an input lies between lexemes when no
  run of letters and no run of digits continues across it.
\<close>

definition between_lexemes :: "string \<Rightarrow> string \<Rightarrow> bool" where
  "between_lexemes u v \<longleftrightarrow>
     u = [] \<or> v = [] \<or>
     \<not> (isLetter (last u) \<and> isLetter (hd v)) \<and> \<not> (isDigit (last u) \<and> isDigit (hd v))"

section \<open>The scanner seen on the unread text\<close>

text \<open>
  The proofs below relate the cursor-based scanner to functions on the text from
  \<open>position\<close> on. A scanner is \<open>primed\<close> when \<open>position\<close> is not negative,
  \<open>readPosition\<close> is \<open>position + 1\<close> in the arithmetic of the cursors, and \<open>ch\<close> is
  the byte at \<open>position\<close>, or the sentinel beyond the end.
\<close>

definition rest :: "'a::len word Lexer \<Rightarrow> string" where
  "rest l = drop (nat (sint (position l))) (input l)"

definition primed :: "'a::len word Lexer \<Rightarrow> bool" where
  "primed l \<longleftrightarrow>
     0 \<le> sint (position l) \<and> readPosition l = position l + 1 \<and>
     ch l = (case rest l of [] \<Rightarrow> CHR 0x00 | c # _ \<Rightarrow> c)"

text \<open>
  An operation on a primed scanner \<open>l\<close> that calls \<open>readChar\<close> \<open>k\<close> times has the
  result \<open>r\<close>: when the \<open>k\<close> reads keep \<open>position\<close> within the largest \<open>int\<close>, it
  returns \<open>x\<close> and a primed scanner on the same input with the unread text \<open>s\<close> and
  \<open>position\<close> advanced by \<open>k\<close>; otherwise it panics on the negative index.
\<close>

definition reads ::
  "error + ('x \<times> 'a::len word Lexer) \<Rightarrow> 'a word Lexer \<Rightarrow> 'x \<Rightarrow> string \<Rightarrow> nat \<Rightarrow> bool" where
  "reads r l x s k \<longleftrightarrow>
     (sint (position l) + int k \<le> MaxInt TYPE('a) \<longrightarrow>
        (\<exists>l'. r = Inr (x, l') \<and> primed l' \<and> input l' = input l \<and> rest l' = s \<and>
           sint (position l') = sint (position l) + int k)) \<and>
     (MaxInt TYPE('a) < sint (position l) + int k \<longrightarrow> r = Inl IndexOutOfRange)"

text \<open>The fourteen \<open>case\<close> labels of the \<open>switch\<close> in \<open>NextToken\<close> as a table.\<close>

definition symbolType :: "byte \<Rightarrow> TokenType option" where
  "symbolType c =
     (if c = CHR ''='' then Some ASSIGN
      else if c = CHR ''+'' then Some PLUS
      else if c = CHR ''-'' then Some MINUS
      else if c = CHR ''!'' then Some BANG
      else if c = CHR ''/'' then Some SLASH
      else if c = CHR ''*'' then Some ASTERISK
      else if c = CHR ''<'' then Some LT
      else if c = CHR ''>'' then Some GT
      else if c = CHR '';'' then Some SEMICOLON
      else if c = CHR '','' then Some COMMA
      else if c = CHR ''('' then Some LPAREN
      else if c = CHR '')'' then Some RPAREN
      else if c = CHR ''{'' then Some LBRACE
      else if c = CHR ''}'' then Some RBRACE
      else None)"

text \<open>
  What one call of \<open>NextToken\<close> does to the unread text: the token and the text left.
  \<open>NextToken_reads\<close> below proves that a primed scanner computes exactly this.
\<close>

definition headToken :: "string \<Rightarrow> Token \<times> string" where
  "headToken s =
     (case dropWhile isWhitespace s of
        [] \<Rightarrow> (\<lparr>Type = EOF, Literal = ''''\<rparr>, [])
      | c # cs \<Rightarrow>
          (case symbolType c of
             Some t \<Rightarrow> (newToken t c, cs)
           | None \<Rightarrow>
               if isLetter c then
                 (\<lparr>Type = LookupIdent (takeWhile isLetter (c # cs)),
                   Literal = takeWhile isLetter (c # cs)\<rparr>, dropWhile isLetter (c # cs))
               else if isDigit c then
                 (\<lparr>Type = INT_tok, Literal = takeWhile isDigit (c # cs)\<rparr>,
                  dropWhile isDigit (c # cs))
               else if c = CHR 0x00 then (\<lparr>Type = EOF, Literal = ''''\<rparr>, cs)
               else (newToken ILLEGAL c, cs)))"

fun headTokens :: "nat \<Rightarrow> string \<Rightarrow> Token list" where
  "headTokens 0 s = []"
| "headTokens (Suc n) s = fst (headToken s) # headTokens n (snd (headToken s))"

text \<open>The token that the scanner returns for a lexeme.\<close>

definition lexToken :: "string \<Rightarrow> Token" where
  "lexToken x =
     (case x of
        [] \<Rightarrow> \<lparr>Type = EOF, Literal = ''''\<rparr>
      | c # _ \<Rightarrow>
          (case symbolType c of
             Some t \<Rightarrow> newToken t c
           | None \<Rightarrow>
               if isLetter c then \<lparr>Type = LookupIdent x, Literal = x\<rparr>
               else if isDigit c then \<lparr>Type = INT_tok, Literal = x\<rparr>
               else if c = CHR 0x00 then \<lparr>Type = EOF, Literal = ''''\<rparr>
               else newToken ILLEGAL c))"


text \<open>The text left unread after \<open>n\<close> calls.\<close>

fun restN :: "nat \<Rightarrow> string \<Rightarrow> string" where
  "restN 0 s = s"
| "restN (Suc n) s = restN n (snd (headToken s))"

text \<open>
  The number of \<open>readChar\<close> calls that one call of \<open>NextToken\<close> makes on the unread
  text \<open>s\<close>, and that \<open>n\<close> calls make.
\<close>

definition steps :: "string \<Rightarrow> nat" where
  "steps s =
     length (takeWhile isWhitespace s) +
     (case dropWhile isWhitespace s of
        [] \<Rightarrow> 1
      | c # cs \<Rightarrow>
          if isLetter c then length (takeWhile isLetter (c # cs))
          else if isDigit c then length (takeWhile isDigit (c # cs))
          else 1)"

fun stepsN :: "nat \<Rightarrow> string \<Rightarrow> nat" where
  "stepsN 0 s = 0"
| "stepsN (Suc n) s = steps s + stepsN n (snd (headToken s))"

section \<open>Basic facts\<close>

lemmas tag_defs =
  ILLEGAL_def EOF_def IDENT_def INT_tok_def ASSIGN_def PLUS_def MINUS_def BANG_def
  ASTERISK_def SLASH_def LT_def GT_def COMMA_def SEMICOLON_def LPAREN_def RPAREN_def
  LBRACE_def RBRACE_def FUNCTION_def LET_def

declare skipWhitespace.simps [simp del] readIdentifier_loop.simps [simp del]
  readNumber_loop.simps [simp del]

lemma not_isWhitespace_NUL [simp]: "\<not> isWhitespace (CHR 0x00)"
  by (simp add: isWhitespace_def)

lemma not_isLetter_NUL [simp]: "\<not> isLetter (CHR 0x00)"
  by (simp add: isLetter_def)

lemma not_isDigit_NUL [simp]: "\<not> isDigit (CHR 0x00)"
  by (simp add: isDigit_def)

subsection \<open>The arithmetic of the cursors\<close>

lemma sint_le_MaxInt: "sint (x :: 'a::len word) \<le> MaxInt TYPE('a)"
  using sint_lt [of x] by (simp add: MaxInt_def)

lemma sint_plus_1:
  "sint (x + 1 :: 'a::len word) = signed_take_bit (LENGTH('a) - 1) (sint x + 1)"
  using sint_word_ariths(5) [of x] by (simp add: word_succ_p1)

lemma sint_succ:
  "sint (x :: 'a::len word) < MaxInt TYPE('a) \<Longrightarrow> sint (x + 1) = sint x + 1"
  using sint_ge [of x] by (simp add: sint_plus_1 MaxInt_def signed_take_bit_int_eq_self)

lemma signed_take_bit_exp: "signed_take_bit n (2 ^ n :: int) = - (2 ^ n)"
proof -
  have "take_bit (Suc n) (2 ^ n :: int) = 2 ^ n"
    by (rule take_bit_int_eq_self) simp_all
  moreover have "bit (2 ^ n :: int) n"
    by (simp add: bit_exp_iff)
  ultimately show ?thesis
    by (simp add: signed_take_bit_eq_take_bit_minus)
qed

lemma sint_wrap:
  "sint (x :: 'a::len word) = MaxInt TYPE('a) \<Longrightarrow> sint (x + 1) = - MaxInt TYPE('a) - 1"
  by (simp add: sint_plus_1 MaxInt_def signed_take_bit_exp)

lemma MaxInt_nonneg: "0 \<le> MaxInt TYPE('a::len)"
  by (simp add: MaxInt_def)

subsection \<open>\<open>readChar\<close>\<close>

lemma readChar_Inr:
  assumes "readChar l = Inr l'"
  shows "0 \<le> sint (readPosition l) \<and> input l' = input l \<and> position l' = readPosition l \<and>
    readPosition l' = readPosition l + 1 \<and>
    ch l' = (case drop (nat (sint (readPosition l))) (input l) of [] \<Rightarrow> CHR 0x00 | c # _ \<Rightarrow> c)"
proof (cases "int (length (input l)) \<le> sint (readPosition l)")
  case True
  moreover from True have "0 \<le> sint (readPosition l)"
    by simp
  ultimately show ?thesis
    using assms by (auto simp: readChar_def)
next
  case False
  with assms have p: "0 \<le> sint (readPosition l)"
    by (simp add: readChar_def split: if_splits)
  with False have "nat (sint (readPosition l)) < length (input l)"
    by simp
  from Cons_nth_drop_Suc [OF this, symmetric] False p assms show ?thesis
    by (auto simp: readChar_def)
qed

lemma readChar_returns:
  "0 \<le> sint (readPosition l) \<Longrightarrow> \<exists>l'. readChar l = Inr l'"
  by (simp add: readChar_def)

lemma readChar_panics:
  "sint (readPosition l) < 0 \<Longrightarrow> readChar l = Inl IndexOutOfRange"
  by (simp add: readChar_def)

lemma readChar_primes:
  assumes "readChar l = Inr l'"
  shows "primed l'"
  using readChar_Inr [OF assms] by (simp add: primed_def rest_def)

lemma primed_readChar:
  assumes "primed l"
  shows "reads (map_sum id (Pair x) (readChar l)) l x (tl (rest l)) 1"
proof (cases "sint (position l) < MaxInt TYPE('a)")
  case True
  with assms have rp: "sint (readPosition l) = sint (position l) + 1"
    by (simp add: primed_def sint_succ)
  with assms have "0 \<le> sint (readPosition l)"
    by (simp add: primed_def)
  from readChar_returns [OF this] obtain l' where l': "readChar l = Inr l'"
    by blast
  from assms have "nat (sint (position l) + 1) = Suc (nat (sint (position l)))"
    by (simp add: primed_def nat_add_distrib)
  with readChar_Inr [OF l'] readChar_primes [OF l'] rp have
    "primed l'" "input l' = input l" "rest l' = tl (rest l)"
    "sint (position l') = sint (position l) + 1"
    by (simp_all add: rest_def drop_Suc tl_drop)
  with True l' show ?thesis
    by (simp add: reads_def)
next
  case False
  with sint_le_MaxInt [of "position l"] have m: "sint (position l) = MaxInt TYPE('a)"
    by simp
  with assms MaxInt_nonneg [where 'a = 'a] have "sint (readPosition l) < 0"
    by (simp add: primed_def sint_wrap)
  from readChar_panics [OF this] m show ?thesis
    by (simp add: reads_def)
qed

lemma readChar_return_reads:
  "primed l \<Longrightarrow> reads (readChar_return tok l) l tok (tl (rest l)) 1"
  using primed_readChar [of l tok]
  by (cases "readChar l") (simp_all add: readChar_return_def)

lemma reads_Inr:
  assumes "reads r (l :: 'a::len word Lexer) x s k" and "r = Inr (y, l')"
  shows "y = x \<and> primed l' \<and> input l' = input l \<and> rest l' = s \<and>
    sint (position l') = sint (position l) + int k"
proof (cases "sint (position l) + int k \<le> MaxInt TYPE('a)")
  case True
  with assms show ?thesis
    by (auto simp: reads_def)
next
  case False
  with assms show ?thesis
    by (simp add: reads_def)
qed

lemma reads_returns:
  assumes "reads r (l :: 'a::len word Lexer) x s k"
    and "sint (position l) + int k \<le> MaxInt TYPE('a)"
  obtains l' where "r = Inr (x, l')" and "primed l'" and "input l' = input l"
    and "rest l' = s" and "sint (position l') = sint (position l) + int k"
  using assms by (auto simp: reads_def)

subsection \<open>The three loops\<close>

lemma reads_none: "primed l \<Longrightarrow> reads (Inr (x, l)) l x (rest l) 0"
  using sint_le_MaxInt [of "position l"] by (simp add: reads_def)

lemma loop_reads:
  fixes f :: "'a::len word Lexer \<Rightarrow> error + 'a word Lexer"
  assumes eq: "\<And>l. f l =
      (if P (ch l) then (case readChar l of Inl e \<Rightarrow> Inl e | Inr l' \<Rightarrow> f l') else Inr l)"
    and nul: "\<not> P (CHR 0x00)"
  shows "primed l \<Longrightarrow>
    reads (map_sum id (Pair ()) (f l)) l () (dropWhile P (rest l))
      (length (takeWhile P (rest l)))"
proof (induction "rest l" arbitrary: l)
  case Nil
  then have "ch l = CHR 0x00"
    by (simp add: primed_def)
  with nul have "f l = Inr l"
    by (simp add: eq [of l])
  with Nil reads_none [OF Nil.prems, of "()"] show ?case
    by simp
next
  case (Cons c cs)
  from Cons.hyps(2) [symmetric] Cons.prems have c: "ch l = c"
    by (simp add: primed_def)
  show ?case
  proof (cases "P c")
    case False
    with c have "f l = Inr l"
      by (simp add: eq [of l])
    with False Cons.hyps(2) [symmetric] reads_none [OF Cons.prems, of "()"] show ?thesis
      by simp
  next
    case True
    with Cons.hyps(2) [symmetric] have run:
      "dropWhile P (rest l) = dropWhile P cs"
      "length (takeWhile P (rest l)) = Suc (length (takeWhile P cs))"
      by simp_all
    from primed_readChar [OF Cons.prems, of "()"] Cons.hyps(2) [symmetric]
    have one: "reads (map_sum id (Pair ()) (readChar l)) l () cs 1"
      by simp
    show ?thesis
    proof (cases "sint (position l) < MaxInt TYPE('a)")
      case False
      with one have "readChar l = Inl IndexOutOfRange"
        by (cases "readChar l") (auto simp: reads_def)
      with True c have "f l = Inl IndexOutOfRange"
        by (simp add: eq [of l])
      with False show ?thesis
        unfolding run by (simp add: reads_def)
    next
      case lt: True
      with one obtain l1 where l1: "readChar l = Inr l1" "primed l1" "input l1 = input l"
        "rest l1 = cs" "sint (position l1) = sint (position l) + 1"
        by (cases "readChar l") (auto simp: reads_def)
      from True c l1(1) have "f l = f l1"
        by (simp add: eq [of l])
      moreover from Cons.hyps(1) [of l1] l1 have
        "reads (map_sum id (Pair ()) (f l1)) l1 () (dropWhile P cs) (length (takeWhile P cs))"
        by simp
      ultimately show ?thesis
        unfolding run using l1(3,5) by (simp add: reads_def add.assoc)
    qed
  qed
qed

lemma skipWhitespace_reads:
  "primed l \<Longrightarrow>
     reads (map_sum id (Pair ()) (skipWhitespace l)) l () (dropWhile isWhitespace (rest l))
       (length (takeWhile isWhitespace (rest l)))"
  by (rule loop_reads [of skipWhitespace isWhitespace]) (simp_all add: skipWhitespace.simps [symmetric])

lemma readIdentifier_loop_reads:
  "primed l \<Longrightarrow>
     reads (map_sum id (Pair ()) (readIdentifier_loop l)) l () (dropWhile isLetter (rest l))
       (length (takeWhile isLetter (rest l)))"
  by (rule loop_reads [of readIdentifier_loop isLetter])
    (simp_all add: readIdentifier_loop.simps [symmetric])

lemma readNumber_loop_reads:
  "primed l \<Longrightarrow>
     reads (map_sum id (Pair ()) (readNumber_loop l)) l () (dropWhile isDigit (rest l))
       (length (takeWhile isDigit (rest l)))"
  by (rule loop_reads [of readNumber_loop isDigit])
    (simp_all add: readNumber_loop.simps [symmetric])

lemma slice_run:
  assumes "primed l" and "rest l \<noteq> []" and "input l' = input l"
    and "sint (position l') = sint (position l) + int (length (takeWhile P (rest l)))"
  shows "slice (input l') (sint (position l)) (sint (position l')) = Inr (takeWhile P (rest l))"
proof -
  define p where "p = nat (sint (position l))"
  from assms(1) have p: "sint (position l) = int p"
    by (simp add: p_def primed_def)
  have r: "rest l = drop p (input l)"
    by (simp add: rest_def p_def)
  define k where "k = length (takeWhile P (rest l))"
  have "k \<le> length (rest l)"
    unfolding k_def by (rule length_takeWhile_le)
  moreover from assms(2) have "p < length (input l)"
    by (simp add: r)
  ultimately have "p + k \<le> length (input l)"
    by (simp add: r)
  moreover have "take k (rest l) = takeWhile P (rest l)"
    unfolding k_def by (rule takeWhile_eq_take [symmetric])
  moreover from assms(4) p have "sint (position l') = int (p + k)"
    by (simp add: k_def)
  ultimately show ?thesis
    using assms(3) p by (simp add: slice_def r)
qed

lemma reads_bind:
  fixes l :: "'a::len word Lexer"
  assumes "reads r l x s k"
    and "\<And>l1. primed l1 \<Longrightarrow> input l1 = input l \<Longrightarrow> rest l1 = s \<Longrightarrow>
      sint (position l1) = sint (position l) + int k \<Longrightarrow> reads (g x l1) l1 y s' k'"
  shows "reads (case r of Inl e \<Rightarrow> Inl e | Inr (x', l1) \<Rightarrow> g x' l1) l y s' (k + k')"
proof (cases "sint (position l) + int k \<le> MaxInt TYPE('a)")
  case True
  with assms(1) obtain l1 where l1: "r = Inr (x, l1)" "primed l1" "input l1 = input l"
    "rest l1 = s" "sint (position l1) = sint (position l) + int k"
    by (rule reads_returns)
  from assms(2) [OF l1(2-5)] l1 show ?thesis
    by (simp add: reads_def add.assoc)
next
  case False
  with assms(1) have "r = Inl IndexOutOfRange"
    by (simp add: reads_def)
  with False show ?thesis
    by (simp add: reads_def)
qed

lemma loop_slice_reads:
  fixes l :: "'a::len word Lexer"
  assumes "primed l" and "rest l \<noteq> []"
    and loop: "reads (map_sum id (Pair ()) r) l () (dropWhile P (rest l))
      (length (takeWhile P (rest l)))"
  shows "reads
    (case r of
       Inl e \<Rightarrow> Inl e
     | Inr l' \<Rightarrow>
         (case slice (input l') (sint (position l)) (sint (position l')) of
            Inl e \<Rightarrow> Inl e
          | Inr s \<Rightarrow> Inr (s, l')))
    l (takeWhile P (rest l)) (dropWhile P (rest l)) (length (takeWhile P (rest l)))"
proof (cases "sint (position l) + int (length (takeWhile P (rest l))) \<le> MaxInt TYPE('a)")
  case True
  with loop obtain l' where l': "map_sum id (Pair ()) r = Inr ((), l')" "primed l'"
    "input l' = input l" "rest l' = dropWhile P (rest l)"
    "sint (position l') = sint (position l) + int (length (takeWhile P (rest l)))"
    by (rule reads_returns)
  from l'(1) have "r = Inr l'"
    by (cases r) simp_all
  with slice_run [OF assms(1,2) l'(3,5)] l' True show ?thesis
    by (simp add: reads_def)
next
  case False
  with loop have "map_sum id (Pair ()) r = Inl IndexOutOfRange"
    by (simp add: reads_def)
  then have "r = Inl IndexOutOfRange"
    by (cases r) simp_all
  with False show ?thesis
    by (simp add: reads_def)
qed

lemma readIdentifier_reads:
  assumes "primed l" and "rest l \<noteq> []"
  shows "reads (readIdentifier l) l (takeWhile isLetter (rest l)) (dropWhile isLetter (rest l))
    (length (takeWhile isLetter (rest l)))"
  using loop_slice_reads [OF assms readIdentifier_loop_reads [OF assms(1)]]
  by (simp add: readIdentifier_def)

lemma readNumber_reads:
  assumes "primed l" and "rest l \<noteq> []"
  shows "reads (readNumber l) l (takeWhile isDigit (rest l)) (dropWhile isDigit (rest l))
    (length (takeWhile isDigit (rest l)))"
  using loop_slice_reads [OF assms readNumber_loop_reads [OF assms(1)]]
  by (simp add: readNumber_def)

subsection \<open>\<open>NextToken\<close>\<close>

lemma reads_map:
  assumes "reads r l x s k"
  shows "reads (case r of Inl e \<Rightarrow> Inl e | Inr (y, l') \<Rightarrow> Inr (h y, l')) l (h x) s k"
  using assms by (auto simp: reads_def)

lemma NextToken_switch:
  "NextToken l0 =
     (case skipWhitespace l0 of
        Inl e \<Rightarrow> Inl e
      | Inr l \<Rightarrow>
          (case symbolType (ch l) of
             Some t \<Rightarrow> readChar_return (newToken t (ch l)) l
           | None \<Rightarrow>
               if isLetter (ch l) then
                 (case readIdentifier l of
                    Inl e \<Rightarrow> Inl e
                  | Inr (lit, l') \<Rightarrow> Inr (\<lparr>Type = LookupIdent lit, Literal = lit\<rparr>, l'))
               else if isDigit (ch l) then
                 (case readNumber l of
                    Inl e \<Rightarrow> Inl e
                  | Inr (lit, l') \<Rightarrow> Inr (\<lparr>Type = INT_tok, Literal = lit\<rparr>, l'))
               else if ch l = CHR 0x00 then readChar_return \<lparr>Type = EOF, Literal = ''''\<rparr> l
               else readChar_return (newToken ILLEGAL (ch l)) l))"
  by (simp add: NextToken_def symbolType_def split: sum.splits)

lemma symbolType_NUL [simp]: "symbolType (CHR 0x00) = None"
  by (simp add: symbolType_def)

lemma symbolType_Some:
  "symbolType c = Some t \<Longrightarrow> c \<in> set ''=+-!/*<>;,(){}''"
  by (simp add: symbolType_def split: if_splits)

lemma symbol_class:
  "c \<in> set ''=+-!/*<>;,(){}'' \<Longrightarrow>
     \<not> isLetter c \<and> \<not> isDigit c \<and> \<not> isWhitespace c \<and> c \<noteq> CHR 0x00 \<and> c < CHR 0x80"
  by (auto simp: isLetter_def isDigit_def isWhitespace_def)

lemma symbolType_letter: "isLetter c \<Longrightarrow> symbolType c = None"
  using symbolType_Some [of c] symbol_class [of c] by (cases "symbolType c") auto

lemma symbolType_digit: "isDigit c \<Longrightarrow> symbolType c = None"
  using symbolType_Some [of c] symbol_class [of c] by (cases "symbolType c") auto

lemma letter_not_whitespace: "isLetter c \<Longrightarrow> \<not> isWhitespace c"
  by (auto simp: isWhitespace_def isLetter_def)

lemma digit_not_whitespace: "isDigit c \<Longrightarrow> \<not> isWhitespace c"
  by (auto simp: isWhitespace_def isDigit_def)

lemma symbol_not_whitespace: "symbolType c = Some t \<Longrightarrow> \<not> isWhitespace c"
  using symbolType_Some [of c t] symbol_class [of c] by blast

lemma digit_not_letter: "isDigit c \<Longrightarrow> \<not> isLetter c"
  by (auto simp: isLetter_def isDigit_def less_eq_char_def)

lemma headToken_Nil: "headToken [] = (\<lparr>Type = EOF, Literal = ''''\<rparr>, [])"
  by (simp add: headToken_def)

lemma steps_Nil: "steps [] = 1"
  by (simp add: steps_def)

lemma headToken_Cons:
  assumes "\<not> isWhitespace c"
  shows "headToken (c # cs) =
    (case symbolType c of
       Some t \<Rightarrow> (newToken t c, cs)
     | None \<Rightarrow>
         if isLetter c then
           (\<lparr>Type = LookupIdent (takeWhile isLetter (c # cs)),
             Literal = takeWhile isLetter (c # cs)\<rparr>, dropWhile isLetter (c # cs))
         else if isDigit c then
           (\<lparr>Type = INT_tok, Literal = takeWhile isDigit (c # cs)\<rparr>,
            dropWhile isDigit (c # cs))
         else if c = CHR 0x00 then (\<lparr>Type = EOF, Literal = ''''\<rparr>, cs)
         else (newToken ILLEGAL c, cs))"
  using assms by (simp add: headToken_def)

lemma steps_Cons:
  assumes "\<not> isWhitespace c"
  shows "steps (c # cs) =
    (if isLetter c then length (takeWhile isLetter (c # cs))
     else if isDigit c then length (takeWhile isDigit (c # cs))
     else 1)"
  using assms by (simp add: steps_def)

lemma switch_reads:
  fixes l :: "'a::len word Lexer"
  assumes "primed l" and "\<not> isWhitespace (ch l)"
  shows "reads
    (case symbolType (ch l) of
       Some t \<Rightarrow> readChar_return (newToken t (ch l)) l
     | None \<Rightarrow>
         if isLetter (ch l) then
           (case readIdentifier l of
              Inl e \<Rightarrow> Inl e
            | Inr (lit, l') \<Rightarrow> Inr (\<lparr>Type = LookupIdent lit, Literal = lit\<rparr>, l'))
         else if isDigit (ch l) then
           (case readNumber l of
              Inl e \<Rightarrow> Inl e
            | Inr (lit, l') \<Rightarrow> Inr (\<lparr>Type = INT_tok, Literal = lit\<rparr>, l'))
         else if ch l = CHR 0x00 then readChar_return \<lparr>Type = EOF, Literal = ''''\<rparr> l
         else readChar_return (newToken ILLEGAL (ch l)) l)
    l (fst (headToken (rest l))) (snd (headToken (rest l))) (steps (rest l))"
proof (cases "rest l")
  case Nil
  with assms(1) have "ch l = CHR 0x00"
    by (simp add: primed_def)
  with readChar_return_reads [OF assms(1), of "\<lparr>Type = EOF, Literal = ''''\<rparr>"] Nil
  show ?thesis
    by (simp add: headToken_Nil steps_Nil)
next
  case (Cons c cs)
  with assms(1) have c: "ch l = c"
    by (simp add: primed_def)
  with assms(2) have ws: "\<not> isWhitespace c"
    by simp
  from Cons have ne: "rest l \<noteq> []"
    by simp
  note h = headToken_Cons [OF ws, of cs] steps_Cons [OF ws, of cs]
  show ?thesis
  proof (cases "symbolType c")
    case (Some t)
    with symbolType_Some [of c t] symbol_class [of c] have "\<not> isLetter c" "\<not> isDigit c"
      by blast+
    with readChar_return_reads [OF assms(1), of "newToken t c"] Some show ?thesis
      unfolding Cons c h by simp
  next
    case None
    consider (letter) "isLetter c" | (digit) "\<not> isLetter c" "isDigit c"
      | (other) "\<not> isLetter c" "\<not> isDigit c"
      by blast
    then show ?thesis
    proof cases
      case letter
      from reads_map [OF readIdentifier_reads [OF assms(1) ne],
          of "\<lambda>lit. \<lparr>Type = LookupIdent lit, Literal = lit\<rparr>"] None letter
      show ?thesis
        unfolding Cons c h by simp
    next
      case digit
      from reads_map [OF readNumber_reads [OF assms(1) ne],
          of "\<lambda>lit. \<lparr>Type = INT_tok, Literal = lit\<rparr>"] None digit
      show ?thesis
        unfolding Cons c h by simp
    next
      case other
      show ?thesis
      proof (cases "c = CHR 0x00")
        case True
        with readChar_return_reads [OF assms(1), of "\<lparr>Type = EOF, Literal = ''''\<rparr>"] None other
        show ?thesis
          unfolding Cons c h by simp
      next
        case False
        with readChar_return_reads [OF assms(1), of "newToken ILLEGAL c"] None other
        show ?thesis
          unfolding Cons c h by simp
      qed
    qed
  qed
qed

lemma headToken_dropWhile: "headToken (dropWhile isWhitespace s) = headToken s"
  by (simp add: headToken_def)

lemma steps_dropWhile:
  "steps s = length (takeWhile isWhitespace s) + steps (dropWhile isWhitespace s)"
proof -
  have "takeWhile isWhitespace (dropWhile isWhitespace s) = []"
    by (induction s) simp_all
  moreover have "dropWhile isWhitespace (dropWhile isWhitespace s) = dropWhile isWhitespace s"
    by (induction s) simp_all
  ultimately show ?thesis
    by (simp add: steps_def)
qed

text \<open>
  One call of \<open>NextToken\<close> on a primed scanner returns the token of the list view and
  leaves the text of the list view, or panics when its reads cross the largest \<open>int\<close>.
\<close>

lemma NextToken_reads:
  fixes l0 :: "'a::len word Lexer"
  assumes "primed l0"
  shows "reads (NextToken l0) l0 (fst (headToken (rest l0))) (snd (headToken (rest l0)))
    (steps (rest l0))"
proof -
  let ?body = "\<lambda>(u :: unit) (l :: 'a word Lexer).
    case symbolType (ch l) of
       Some t \<Rightarrow> readChar_return (newToken t (ch l)) l
     | None \<Rightarrow>
         if isLetter (ch l) then
           (case readIdentifier l of
              Inl e \<Rightarrow> Inl e
            | Inr (lit, l') \<Rightarrow> Inr (\<lparr>Type = LookupIdent lit, Literal = lit\<rparr>, l'))
         else if isDigit (ch l) then
           (case readNumber l of
              Inl e \<Rightarrow> Inl e
            | Inr (lit, l') \<Rightarrow> Inr (\<lparr>Type = INT_tok, Literal = lit\<rparr>, l'))
         else if ch l = CHR 0x00 then readChar_return \<lparr>Type = EOF, Literal = ''''\<rparr> l
         else readChar_return (newToken ILLEGAL (ch l)) l"
  have eq: "NextToken l0 =
      (case map_sum id (Pair ()) (skipWhitespace l0) of
         Inl e \<Rightarrow> Inl e
       | Inr (u, l) \<Rightarrow> ?body u l)"
    by (cases "skipWhitespace l0") (simp_all add: NextToken_switch)
  have "reads (?body () l1) l1 (fst (headToken (rest l0))) (snd (headToken (rest l0)))
      (steps (dropWhile isWhitespace (rest l0)))"
    if "primed l1" and r: "rest l1 = dropWhile isWhitespace (rest l0)" for l1 :: "'a word Lexer"
  proof -
    have "\<not> isWhitespace (ch l1)"
    proof (cases "rest l1")
      case Nil
      with that(1) show ?thesis
        by (simp add: primed_def)
    next
      case (Cons c cs)
      with r hd_dropWhile [of isWhitespace "rest l0"] have "\<not> isWhitespace c"
        by (cases "dropWhile isWhitespace (rest l0)") auto
      with Cons that(1) show ?thesis
        by (simp add: primed_def)
    qed
    from switch_reads [OF that(1) this] show ?thesis
      by (simp add: r headToken_dropWhile)
  qed
  from reads_bind [OF skipWhitespace_reads [OF assms], of ?body, OF this] show ?thesis
    unfolding eq steps_dropWhile [of "rest l0"] by simp
qed

subsection \<open>Runs of calls\<close>

lemma NextTokens_reads:
  fixes l :: "'a::len word Lexer"
  shows "primed l \<Longrightarrow>
    reads (NextTokens n l) l (headTokens n (rest l)) (restN n (rest l)) (stepsN n (rest l))"
proof (induction n arbitrary: l)
  case 0
  from reads_none [OF 0, of "[]"] show ?case
    by simp
next
  case (Suc n)
  let ?g = "\<lambda>tok (l' :: 'a word Lexer).
    case NextTokens n l' of Inl e \<Rightarrow> Inl e | Inr (toks, l'') \<Rightarrow> Inr (tok # toks, l'')"
  have "reads (?g (fst (headToken (rest l))) l1) l1 (headTokens (Suc n) (rest l))
      (restN (Suc n) (rest l)) (stepsN n (snd (headToken (rest l))))"
    if "primed l1" and "rest l1 = snd (headToken (rest l))" for l1 :: "'a word Lexer"
    using reads_map [OF Suc.IH [OF that(1)], of "\<lambda>toks. fst (headToken (rest l)) # toks"]
    by (simp add: that(2))
  from reads_bind [OF NextToken_reads [OF Suc.prems], of ?g, OF this] show ?case
    by (simp add: case_prod_unfold)
qed

lemma New_primed:
  "\<exists>l :: 'a::len word Lexer. New inp = Inr l \<and> primed l \<and> input l = inp \<and> rest l = inp \<and>
     sint (position l) = 0"
proof -
  let ?l = "\<lparr>input = inp, position = 0 :: 'a word, readPosition = 0, ch = CHR 0x00\<rparr>"
  from readChar_returns [of ?l] obtain l where l: "readChar ?l = Inr l"
    by auto
  from readChar_Inr [OF l] readChar_primes [OF l] l show ?thesis
    by (simp add: New_def rest_def)
qed

text \<open>
  A run of \<open>n\<close> calls from construction returns the tokens of the list view exactly
  when the bytes it reads do not exceed the largest \<open>int\<close>, and panics otherwise.
\<close>

lemma run_reads:
  "\<exists>l0 :: 'a::len word Lexer. primed l0 \<and> input l0 = inp \<and> sint (position l0) = 0 \<and>
     reads (run n inp) l0 (headTokens n inp) (restN n inp) (stepsN n inp)"
proof -
  from New_primed [of inp] obtain l :: "'a word Lexer" where
    l: "New inp = Inr l" "primed l" "input l = inp" "rest l = inp" "sint (position l) = 0"
    by blast
  from NextTokens_reads [OF l(2), of n] l show ?thesis
    by (auto simp: run_def)
qed

lemma run_returns:
  assumes "int (stepsN n inp) \<le> MaxInt TYPE('a::len)"
  shows "\<exists>l :: 'a word Lexer. run n inp = Inr (headTokens n inp, l) \<and> primed l \<and>
    input l = inp \<and> rest l = restN n inp \<and> sint (position l) = int (stepsN n inp)"
proof -
  from run_reads [of inp n] obtain l0 :: "'a word Lexer" where
    "primed l0" "input l0 = inp" "sint (position l0) = 0"
    "reads (run n inp) l0 (headTokens n inp) (restN n inp) (stepsN n inp)"
    by blast
  with assms show ?thesis
    by (auto simp: reads_def)
qed

lemma run_Inr:
  fixes l :: "'a::len word Lexer"
  assumes "run n inp = Inr (toks, l)"
  shows "toks = headTokens n inp \<and> primed l \<and> input l = inp \<and> rest l = restN n inp \<and>
    sint (position l) = int (stepsN n inp)"
proof -
  from run_reads [of inp n] obtain l0 :: "'a word Lexer" where
    "primed l0" "input l0 = inp" "sint (position l0) = 0"
    "reads (run n inp) l0 (headTokens n inp) (restN n inp) (stepsN n inp)"
    by blast
  with reads_Inr [OF this(4) assms] show ?thesis
    by simp
qed

lemma run_panics:
  assumes "MaxInt TYPE('a::len) < int (stepsN n inp)"
  shows "(run n inp :: error + (Token list \<times> 'a word Lexer)) = Inl IndexOutOfRange"
proof -
  from run_reads [of inp n] obtain l0 :: "'a word Lexer" where
    "sint (position l0) = 0"
    "reads (run n inp) l0 (headTokens n inp) (restN n inp) (stepsN n inp)"
    by blast
  with assms show ?thesis
    by (simp add: reads_def)
qed

subsection \<open>The number of bytes read\<close>

lemma length_run: "length (takeWhile P xs) + length (dropWhile P xs) = length xs"
  by (induction xs) simp_all

lemma headToken_blank:
  assumes "dropWhile isWhitespace s = []"
  shows "headToken s = (\<lparr>Type = EOF, Literal = ''''\<rparr>, [])"
  unfolding headToken_def assms by simp

lemma steps_blank:
  assumes "dropWhile isWhitespace s = []"
  shows "steps s = length s + 1"
  using length_run [of isWhitespace s] unfolding steps_def assms by simp

lemma steps_token:
  assumes "dropWhile isWhitespace s = c # cs"
  shows "steps s + length (snd (headToken s)) = length s"
proof -
  from assms have ws: "\<not> isWhitespace c"
    using hd_dropWhile [of isWhitespace s] by auto
  have "\<not> isLetter c \<and> \<not> isDigit c" if "symbolType c = Some t" for t
    using symbolType_Some [OF that] symbol_class [of c] by blast
  then have "steps (c # cs) + length (snd (headToken (c # cs))) = Suc (length cs)"
    using length_run [of isLetter "c # cs"] length_run [of isDigit "c # cs"]
    unfolding steps_Cons [OF ws] headToken_Cons [OF ws]
    by (auto split: option.splits)
  moreover have "steps s = length (takeWhile isWhitespace s) + steps (c # cs)"
    using steps_dropWhile [of s] by (simp only: assms)
  moreover have "headToken s = headToken (c # cs)"
    using headToken_dropWhile [of s] by (simp only: assms)
  ultimately show ?thesis
    using length_run [of isWhitespace s] by (simp add: assms)
qed

lemma steps_pos: "0 < steps s"
proof (cases "dropWhile isWhitespace s")
  case Nil
  then show ?thesis
    by (simp add: steps_blank)
next
  case (Cons c cs)
  then show ?thesis
    by (simp add: steps_def)
qed

lemma steps_le: "steps s + length (snd (headToken s)) \<le> length s + 1"
proof (cases "dropWhile isWhitespace s")
  case Nil
  then show ?thesis
    by (simp add: steps_blank headToken_blank)
next
  case (Cons c cs)
  from steps_token [OF this] show ?thesis
    by simp
qed

lemma stepsN_ge: "n \<le> stepsN n s"
proof (induction n arbitrary: s)
  case 0
  show ?case by simp
next
  case (Suc n)
  from Suc [of "snd (headToken s)"] steps_pos [of s] show ?case
    by simp
qed

lemma stepsN_le: "stepsN n s + length (restN n s) \<le> length s + n"
proof (induction n arbitrary: s)
  case 0
  show ?case by simp
next
  case (Suc n)
  from Suc [of "snd (headToken s)"] steps_le [of s] show ?case
    by simp
qed

text \<open>
  Every call reads at least one byte and \<open>n\<close> calls read at most the input and one
  byte more per call. So a run of \<open>n\<close> calls from construction returns when the length
  of the input and \<open>n\<close> together do not exceed the largest \<open>int\<close>, and no run of
  more calls than the largest \<open>int\<close> returns, whatever the input.
\<close>

lemma run_in_range:
  assumes "int (length inp) + int n \<le> MaxInt TYPE('a::len)"
  shows "\<exists>l :: 'a word Lexer. run n inp = Inr (headTokens n inp, l) \<and> primed l \<and>
    input l = inp"
proof -
  from stepsN_le [of n inp] assms have "int (stepsN n inp) \<le> MaxInt TYPE('a)"
    by simp
  from run_returns [OF this] show ?thesis
    by blast
qed

lemma run_long:
  assumes "MaxInt TYPE('a::len) < int n"
  shows "(run n inp :: error + (Token list \<times> 'a word Lexer)) = Inl IndexOutOfRange"
proof -
  from stepsN_ge [of n inp] assms have "MaxInt TYPE('a) < int (stepsN n inp)"
    by simp
  then show ?thesis
    by (rule run_panics)
qed

section \<open>Tokens and lexemes\<close>

lemma lexemes_dropWhile: "lexemes (dropWhile isWhitespace s) = lexemes s"
  by (induction s) simp_all

lemma lexemes_blank: "dropWhile isWhitespace s = [] \<Longrightarrow> lexemes s = []"
  by (metis lexemes_dropWhile lexemes.simps(1))

lemma lexemes_headToken:
  assumes "dropWhile isWhitespace s = c # cs"
  shows "\<exists>x. lexemes s = x # lexemes (snd (headToken s)) \<and> fst (headToken s) = lexToken x \<and> hd x = c \<and> x \<noteq> []"
proof -
  from assms have nws: "\<not> isWhitespace c"
    by (simp add: dropWhile_eq_Cons_conv)
  have lx: "lexemes s = lexemes (c # cs)"
    using lexemes_dropWhile [of s] assms by simp
  consider (letter) "isLetter c" | (digit) "\<not> isLetter c" "isDigit c"
    | (single) "\<not> isLetter c" "\<not> isDigit c"
    by blast
  then show ?thesis
  proof cases
    case letter
    then have "headToken s =
        (\<lparr>Type = LookupIdent (takeWhile isLetter (c # cs)),
          Literal = takeWhile isLetter (c # cs)\<rparr>, dropWhile isLetter (c # cs))"
      unfolding headToken_def assms by (simp add: symbolType_letter)
    with letter nws lx show ?thesis
      by (simp add: lexToken_def symbolType_letter)
  next
    case digit
    then have "headToken s =
        (\<lparr>Type = INT_tok, Literal = takeWhile isDigit (c # cs)\<rparr>, dropWhile isDigit (c # cs))"
      unfolding headToken_def assms by (simp add: symbolType_digit)
    with digit nws lx show ?thesis
      by (simp add: lexToken_def symbolType_digit)
  next
    case single
    then have "headToken s = (lexToken [c], cs)"
      unfolding headToken_def assms by (simp add: lexToken_def split: option.splits)
    with single nws lx show ?thesis
      by simp
  qed
qed

lemma headTokens_lexemes:
  "headTokens n s =
     take n (map lexToken (lexemes s)) @
     replicate (n - length (lexemes s)) \<lparr>Type = EOF, Literal = ''''\<rparr>"
proof (induction n arbitrary: s)
  case 0
  show ?case by simp
next
  case (Suc n)
  show ?case
  proof (cases "dropWhile isWhitespace s")
    case Nil
    from lexemes_blank [OF Nil] headToken_blank [OF Nil] Suc.IH [of "[]"] show ?thesis
      by (simp add: replicate_append_same)
  next
    case (Cons c cs)
    from lexemes_headToken [OF Cons] obtain x where
      "lexemes s = x # lexemes (snd (headToken s))" "fst (headToken s) = lexToken x"
      by blast
    with Suc.IH [of "snd (headToken s)"] show ?thesis
      by simp
  qed
qed

lemma length_headTokens [simp]: "length (headTokens n s) = n"
  by (induction n arbitrary: s) simp_all

lemma headTokens_nth:
  "i < n \<Longrightarrow>
     headTokens n s ! i =
       (if i < length (lexemes s) then lexToken (lexemes s ! i)
        else \<lparr>Type = EOF, Literal = ''''\<rparr>)"
  by (simp add: headTokens_lexemes nth_append)

lemma lexemes_shape:
  "x \<in> set (lexemes s) \<Longrightarrow>
     x \<noteq> [] \<and> set x \<subseteq> set s \<and> \<not> isWhitespace (hd x) \<and>
     (isLetter (hd x) \<longrightarrow> list_all isLetter x) \<and>
     (isDigit (hd x) \<longrightarrow> list_all isDigit x) \<and>
     (\<not> isLetter (hd x) \<longrightarrow> \<not> isDigit (hd x) \<longrightarrow> length x = 1)"
proof (induction s rule: lexemes.induct)
  case 1
  then show ?case by simp
next
  case (2 c cs)
  consider (blank) "isWhitespace c" | (letter) "\<not> isWhitespace c" "isLetter c"
    | (digit) "\<not> isWhitespace c" "\<not> isLetter c" "isDigit c"
    | (single) "\<not> isWhitespace c" "\<not> isLetter c" "\<not> isDigit c"
    by blast
  then show ?case
  proof cases
    case blank
    with 2 show ?thesis by auto
  next
    case letter
    with "2.prems" have "x = c # takeWhile isLetter cs \<or> x \<in> set (lexemes (dropWhile isLetter cs))"
      by simp
    then show ?thesis
    proof
      assume "x = c # takeWhile isLetter cs"
      with letter show ?thesis
        by (auto simp: list_all_iff digit_not_letter dest: set_takeWhileD)
    next
      assume "x \<in> set (lexemes (dropWhile isLetter cs))"
      with "2.IH"(2) letter show ?thesis
        by (auto dest: set_dropWhileD)
    qed
  next
    case digit
    with "2.prems" have "x = c # takeWhile isDigit cs \<or> x \<in> set (lexemes (dropWhile isDigit cs))"
      by simp
    then show ?thesis
    proof
      assume "x = c # takeWhile isDigit cs"
      with digit show ?thesis
        by (auto simp: list_all_iff dest: set_takeWhileD)
    next
      assume "x \<in> set (lexemes (dropWhile isDigit cs))"
      with "2.IH"(3) digit show ?thesis
        by (auto dest: set_dropWhileD)
    qed
  next
    case single
    with "2.prems" have "x = [c] \<or> x \<in> set (lexemes cs)"
      by simp
    then show ?thesis
    proof
      assume "x = [c]"
      with single show ?thesis by simp
    next
      assume "x \<in> set (lexemes cs)"
      with "2.IH"(4) single show ?thesis by auto
    qed
  qed
qed

lemma symbolType_tags:
  "symbolType c = Some t \<Longrightarrow>
     t \<in> {ASSIGN, PLUS, MINUS, BANG, SLASH, ASTERISK, LT, GT, SEMICOLON, COMMA,
           LPAREN, RPAREN, LBRACE, RBRACE}"
  by (auto simp: symbolType_def split: if_splits)

lemma symbolType_ascii: "symbolType c = Some t \<Longrightarrow> string_of_byte c = [c]"
  using symbolType_Some [of c t] symbol_class [of c]
  by (simp add: string_of_byte_def less_char_def)

lemma LookupIdent_cases:
  "LookupIdent s = (if s = ''fn'' then FUNCTION else if s = ''let'' then LET else IDENT)"
  by (simp add: LookupIdent_def keywords_map_def)

lemma LookupIdent_not_EOF: "LookupIdent s \<noteq> EOF"
  by (simp add: LookupIdent_cases tag_defs)

lemma symbolType_not_EOF: "symbolType c = Some t \<Longrightarrow> t \<noteq> EOF"
  by (auto dest!: symbolType_tags simp: tag_defs)

lemma string_of_byte_not_Nil [simp]: "string_of_byte c \<noteq> []"
  by (simp add: string_of_byte_def Let_def)

lemma lexToken_EOF:
  "Type (lexToken (c # xs)) = EOF \<longleftrightarrow> c = CHR 0x00"
  by (auto simp: lexToken_def newToken_def LookupIdent_not_EOF symbolType_not_EOF
      split: option.splits) (simp_all add: tag_defs)

lemma lexToken_NUL: "lexToken (CHR 0x00 # xs) = \<lparr>Type = EOF, Literal = ''''\<rparr>"
  by (simp add: lexToken_def)

lemma lexemes_hd:
  assumes "x \<in> set (lexemes s)"
  obtains c xs where "x = c # xs" and "c \<in> set s"
    and "isLetter c \<or> isDigit c \<or> xs = []"
proof -
  from lexemes_shape [OF assms] have ne: "x \<noteq> []" and sub: "set x \<subseteq> set s"
    and one: "\<not> isLetter (hd x) \<longrightarrow> \<not> isDigit (hd x) \<longrightarrow> length x = 1"
    by blast+
  from ne obtain c xs where x: "x = c # xs"
    by (cases x) simp_all
  from sub x have "c \<in> set s"
    by simp
  moreover from one x have "isLetter c \<or> isDigit c \<or> xs = []"
    by auto
  ultimately show thesis
    using x that by blast
qed

lemma lexemes_nth_EOF:
  assumes "CHR 0x00 \<notin> set inp" and "i < length (lexemes inp)"
  shows "Type (lexToken (lexemes inp ! i)) \<noteq> EOF"
proof -
  from assms(2) have "lexemes inp ! i \<in> set (lexemes inp)"
    by simp
  then obtain c xs where x: "lexemes inp ! i = c # xs" and "c \<in> set inp"
    by (rule lexemes_hd)
  with assms(1) have "c \<noteq> CHR 0x00"
    by blast
  then show ?thesis
    unfolding x by (simp add: lexToken_EOF)
qed

lemma lexToken_Literal:
  assumes "x \<in> set (lexemes s)" and "hd x \<noteq> CHR 0x00" and "hd x < CHR 0x80"
  shows "Literal (lexToken x) = x"
proof -
  from assms(1) obtain c xs where
    x: "x = c # xs" and "c \<in> set s"
    and one: "isLetter c \<or> isDigit c \<or> xs = []"
    by (rule lexemes_hd)
  from assms(3) x have ascii: "string_of_byte c = [c]"
    by (simp add: string_of_byte_def less_char_def)
  from assms(2) x have nul: "c \<noteq> CHR 0x00"
    by simp
  consider (letter) "isLetter c" | (digit) "\<not> isLetter c" "isDigit c"
    | (single) "\<not> isLetter c" "\<not> isDigit c"
    by blast
  then show ?thesis
  proof cases
    case letter
    then show ?thesis
      by (simp add: x lexToken_def symbolType_letter)
  next
    case digit
    then show ?thesis
      by (simp add: x lexToken_def symbolType_digit)
  next
    case single
    with one nul ascii show ?thesis
      by (simp add: x lexToken_def newToken_def split: option.splits)
  qed
qed

declare headTokens.simps [simp del]

lemma headTokens_set:
  assumes "tok \<in> set (headTokens n s)"
  shows "tok = \<lparr>Type = EOF, Literal = ''''\<rparr> \<or> (\<exists>x\<in>set (lexemes s). tok = lexToken x)"
proof -
  from assms obtain i where i: "i < n" and tok: "tok = headTokens n s ! i"
    by (auto simp: in_set_conv_nth)
  show ?thesis
  proof (cases "i < length (lexemes s)")
    case True
    then have "lexemes s ! i \<in> set (lexemes s)"
      by simp
    moreover from True i tok have "tok = lexToken (lexemes s ! i)"
      by (simp add: headTokens_nth)
    ultimately show ?thesis
      by blast
  next
    case False
    with i tok show ?thesis
      by (simp add: headTokens_nth)
  qed
qed

lemma lexToken_cases:
  assumes "x \<in> set (lexemes s)"
  obtains (symbol) c t where "x = [c]" and "symbolType c = Some t"
      and "lexToken x = \<lparr>Type = t, Literal = [c]\<rparr>"
    | (letters) "x \<noteq> []" and "list_all isLetter x"
      and "lexToken x = \<lparr>Type = LookupIdent x, Literal = x\<rparr>"
    | (digits) "x \<noteq> []" and "list_all isDigit x"
      and "lexToken x = \<lparr>Type = INT_tok, Literal = x\<rparr>"
    | (nul) "x = [CHR 0x00]" and "lexToken x = \<lparr>Type = EOF, Literal = ''''\<rparr>"
    | (illegal) c where "x = [c]" and "c \<in> set s" and "symbolType c = None"
      and "\<not> isWhitespace c" and "\<not> isLetter c" and "\<not> isDigit c" and "c \<noteq> CHR 0x00"
      and "lexToken x = \<lparr>Type = ILLEGAL, Literal = string_of_byte c\<rparr>"
proof -
  from lexemes_shape [OF assms] have ne: "x \<noteq> []" and ws: "\<not> isWhitespace (hd x)"
    and ls: "isLetter (hd x) \<longrightarrow> list_all isLetter x"
    and ds: "isDigit (hd x) \<longrightarrow> list_all isDigit x"
    by blast+
  from assms obtain c xs where x: "x = c # xs" and mem: "c \<in> set s"
    and one: "isLetter c \<or> isDigit c \<or> xs = []"
    by (rule lexemes_hd)
  consider (l) "isLetter c" | (d) "\<not> isLetter c" "isDigit c"
    | (s) t where "\<not> isLetter c" "\<not> isDigit c" "symbolType c = Some t"
    | (z) "\<not> isLetter c" "\<not> isDigit c" "symbolType c = None" "c = CHR 0x00"
    | (i) "\<not> isLetter c" "\<not> isDigit c" "symbolType c = None" "c \<noteq> CHR 0x00"
    by (cases "symbolType c") auto
  then show thesis
  proof cases
    case l
    with ls x have "list_all isLetter x"
      by simp
    moreover from l have "lexToken x = \<lparr>Type = LookupIdent x, Literal = x\<rparr>"
      by (simp add: x lexToken_def symbolType_letter)
    ultimately show thesis
      using ne by (blast intro: letters)
  next
    case d
    with ds x have "list_all isDigit x"
      by simp
    moreover from d have "lexToken x = \<lparr>Type = INT_tok, Literal = x\<rparr>"
      by (simp add: x lexToken_def symbolType_digit)
    ultimately show thesis
      using ne by (blast intro: digits)
  next
    case s
    with one x have "x = [c]"
      by simp
    moreover from s have "lexToken [c] = \<lparr>Type = t, Literal = [c]\<rparr>"
      by (simp add: lexToken_def newToken_def symbolType_ascii)
    ultimately show thesis
      using s(3) symbol by blast
  next
    case z
    with one x have "x = [CHR 0x00]"
      by simp
    then show thesis
      using nul by (simp add: lexToken_NUL)
  next
    case i
    with one x have xc: "x = [c]"
      by simp
    from i have "lexToken [c] = \<lparr>Type = ILLEGAL, Literal = string_of_byte c\<rparr>"
      by (simp add: lexToken_def newToken_def)
    with xc mem i ws x show thesis
      using illegal [of c] by simp
  qed
qed

lemma symbolType_None: "symbolType c = None \<longleftrightarrow> c \<notin> set ''=+-!/*<>;,(){}''"
  by (simp add: symbolType_def)

lemma whitespace_class:
  "isWhitespace c \<Longrightarrow>
     c \<notin> set ''=+-!/*<>;,(){}'' \<and> \<not> isLetter c \<and> \<not> isDigit c \<and> c \<noteq> CHR 0x00"
  by (auto simp: isWhitespace_def isLetter_def isDigit_def)

lemma keywords_map_cases:
  "keywords_map s = (if s = ''let'' then Some LET else if s = ''fn'' then Some FUNCTION else None)"
  by (simp add: keywords_map_def)

lemma lexemes_letters:
  assumes "inp \<noteq> []" and "list_all isLetter inp"
  shows "lexemes inp = [inp]"
proof -
  from assms obtain c cs where inp: "inp = c # cs" and c: "isLetter c"
    and cs: "\<forall>x\<in>set cs. isLetter x"
    by (cases inp) (auto simp: list_all_iff)
  from cs have run: "takeWhile isLetter cs = cs" "dropWhile isLetter cs = []"
    by simp_all
  from c show ?thesis
    by (simp add: inp letter_not_whitespace run)
qed

section \<open>Whitespace\<close>

lemma lexemes_whitespace_prefix:
  "list_all isWhitespace w \<Longrightarrow> lexemes (w @ v) = lexemes v"
  by (induction w) simp_all

lemma between_lexemes_tail:
  "between_lexemes (c # cs) v \<Longrightarrow> between_lexemes cs v"
  by (cases cs) (auto simp: between_lexemes_def)

lemma between_lexemes_dropWhile:
  assumes "between_lexemes (c # cs) v" and "x \<in> set cs" and "\<not> P x"
  shows "between_lexemes (dropWhile P cs) v"
proof -
  from assms(2,3) have "last (dropWhile P cs) = last cs"
    by (rule dropWhile_last)
  moreover from assms(2) have "cs \<noteq> []"
    by auto
  ultimately show ?thesis
    using assms(1) by (auto simp: between_lexemes_def)
qed

lemma run_across_whitespace:
  assumes ws: "\<And>x. P x \<Longrightarrow> \<not> isWhitespace x"
    and w: "list_all isWhitespace w"
    and stop: "(\<forall>x\<in>set cs. P x) \<Longrightarrow> v = [] \<or> \<not> P (hd v)"
    and step: "\<And>x. x \<in> set cs \<Longrightarrow> \<not> P x \<Longrightarrow>
      lexemes (dropWhile P cs @ w @ v) = lexemes (dropWhile P cs @ v)"
  shows "takeWhile P (cs @ w @ v) = takeWhile P (cs @ v) \<and>
    lexemes (dropWhile P (cs @ w @ v)) = lexemes (dropWhile P (cs @ v))"
proof (cases "\<forall>x\<in>set cs. P x")
  case True
  from stop [OF True] have v: "takeWhile P v = []" "dropWhile P v = v"
    by (cases v; simp)+
  have wv: "takeWhile P (w @ v) = [] \<and> lexemes (dropWhile P (w @ v)) = lexemes v"
  proof (cases w)
    case Nil
    with v show ?thesis by simp
  next
    case (Cons b bs)
    with w have "isWhitespace b"
      by simp
    with ws have "\<not> P b"
      by blast
    with Cons have "takeWhile P (w @ v) = []" "dropWhile P (w @ v) = w @ v"
      by simp_all
    with lexemes_whitespace_prefix [OF w, of v] show ?thesis
      by simp
  qed
  from True have "takeWhile P (cs @ w @ v) = cs @ takeWhile P (w @ v)"
    "dropWhile P (cs @ w @ v) = dropWhile P (w @ v)"
    "takeWhile P (cs @ v) = cs @ takeWhile P v"
    "dropWhile P (cs @ v) = dropWhile P v"
    by simp_all
  with v wv show ?thesis
    by simp
next
  case False
  then obtain x where x: "x \<in> set cs" "\<not> P x"
    by blast
  then have "takeWhile P (cs @ w @ v) = takeWhile P cs"
    "dropWhile P (cs @ w @ v) = dropWhile P cs @ w @ v"
    "takeWhile P (cs @ v) = takeWhile P cs"
    "dropWhile P (cs @ v) = dropWhile P cs @ v"
    by simp_all
  with step [OF x] show ?thesis
    by simp
qed

lemma lexemes_insert_whitespace:
  assumes "list_all isWhitespace w"
  shows "between_lexemes u v \<Longrightarrow> lexemes (u @ w @ v) = lexemes (u @ v)"
proof (induction u rule: lexemes.induct)
  case 1
  from lexemes_whitespace_prefix [OF assms] show ?case
    by simp
next
  case (2 c cs)
  note tail = between_lexemes_tail [OF "2.prems"]
  consider (blank) "isWhitespace c" | (letter) "\<not> isWhitespace c" "isLetter c"
    | (digit) "\<not> isWhitespace c" "\<not> isLetter c" "isDigit c"
    | (single) "\<not> isWhitespace c" "\<not> isLetter c" "\<not> isDigit c"
    by blast
  then show ?case
  proof cases
    case blank
    with "2.IH"(1) [OF blank tail] show ?thesis
      by simp
  next
    case letter
    have "takeWhile isLetter (cs @ w @ v) = takeWhile isLetter (cs @ v) \<and>
      lexemes (dropWhile isLetter (cs @ w @ v)) = lexemes (dropWhile isLetter (cs @ v))"
    proof (rule run_across_whitespace [OF letter_not_whitespace assms])
      assume "\<forall>x\<in>set cs. isLetter x"
      with letter(2) have "isLetter (last (c # cs))"
        by simp
      with "2.prems" show "v = [] \<or> \<not> isLetter (hd v)"
        by (auto simp: between_lexemes_def)
    next
      fix x assume x: "x \<in> set cs" "\<not> isLetter x"
      from "2.IH"(2) [OF letter between_lexemes_dropWhile [of c cs v x isLetter, OF "2.prems" x]]
      show "lexemes (dropWhile isLetter cs @ w @ v) = lexemes (dropWhile isLetter cs @ v)" .
    qed
    with letter show ?thesis
      by simp
  next
    case digit
    have "takeWhile isDigit (cs @ w @ v) = takeWhile isDigit (cs @ v) \<and>
      lexemes (dropWhile isDigit (cs @ w @ v)) = lexemes (dropWhile isDigit (cs @ v))"
    proof (rule run_across_whitespace [OF digit_not_whitespace assms])
      assume "\<forall>x\<in>set cs. isDigit x"
      with digit(3) have "isDigit (last (c # cs))"
        by simp
      with "2.prems" show "v = [] \<or> \<not> isDigit (hd v)"
        by (auto simp: between_lexemes_def)
    next
      fix x assume x: "x \<in> set cs" "\<not> isDigit x"
      from "2.IH"(3) [OF digit between_lexemes_dropWhile [of c cs v x isDigit, OF "2.prems" x]]
      show "lexemes (dropWhile isDigit cs @ w @ v) = lexemes (dropWhile isDigit cs @ v)" .
    qed
    with digit show ?thesis
      by simp
  next
    case single
    with "2.IH"(4) [OF single tail] show ?thesis
      by simp
  qed
qed

lemma isWhitespace_of_char:
  "isWhitespace b \<longleftrightarrow> (of_char b :: nat) \<in> {32, 9, 10, 13}"
proof -
  have eq: "b = d \<longleftrightarrow> (of_char b :: nat) = of_char d" for d
    by simp
  show ?thesis
    unfolding isWhitespace_def eq by auto
qed

lemma string_of_byte_no_whitespace:
  assumes "\<not> isWhitespace c" and "b \<in> set (string_of_byte c)"
  shows "\<not> isWhitespace b"
proof (cases "(of_char c :: nat) < 128")
  case True
  with assms show ?thesis
    by (simp add: string_of_byte_def)
next
  case False
  define k where "k = (of_char c :: nat)"
  have "k < 256"
    by (simp add: k_def)
  then have "k div 64 < 4"
    by simp
  from assms(2) False have "b = char_of (192 + k div 64) \<or> b = char_of (128 + k mod 64)"
    by (simp add: string_of_byte_def k_def Let_def)
  then have "(of_char b :: nat) = (192 + k div 64) mod 256 \<or>
      (of_char b :: nat) = (128 + k mod 64) mod 256"
    by auto
  with \<open>k div 64 < 4\<close> have "128 \<le> (of_char b :: nat)"
    by auto
  then show ?thesis
    by (auto simp: isWhitespace_of_char)
qed

lemma lexToken_no_whitespace:
  assumes "x \<in> set (lexemes s)" and "b \<in> set (Literal (lexToken x))"
  shows "\<not> isWhitespace b"
  using assms(1)
proof (cases rule: lexToken_cases)
  case (symbol c t)
  with assms(2) symbol_not_whitespace [OF symbol(2)] show ?thesis
    by simp
next
  case letters
  with assms(2) show ?thesis
    by (auto simp: list_all_iff dest: letter_not_whitespace)
next
  case digits
  with assms(2) show ?thesis
    by (auto simp: list_all_iff dest: digit_not_whitespace)
next
  case nul
  with assms(2) show ?thesis
    by simp
next
  case (illegal c)
  with assms(2) have "b \<in> set (string_of_byte c)"
    by simp
  with illegal(4) show ?thesis
    by (rule string_of_byte_no_whitespace)
qed

lemma headTokens_no_whitespace:
  assumes "tok \<in> set (headTokens n s)" and "b \<in> set (Literal tok)"
  shows "\<not> isWhitespace b"
proof -
  from headTokens_set [OF assms(1)] assms(2) obtain x where
    "x \<in> set (lexemes s)" "b \<in> set (Literal (lexToken x))"
    by auto
  then show ?thesis
    by (rule lexToken_no_whitespace)
qed

section \<open>Calls in any state\<close>

lemma skipWhitespace_stop: "\<not> isWhitespace (ch l) \<Longrightarrow> skipWhitespace l = Inr l"
  by (simp add: skipWhitespace.simps [of l])

lemma NextToken_cases:
  assumes "NextToken l = Inr (tok, l')"
  obtains (symbol) l1 t where "skipWhitespace l = Inr l1" and "symbolType (ch l1) = Some t"
      and "tok = newToken t (ch l1)"
    | (letters) l1 where "skipWhitespace l = Inr l1" and "isLetter (ch l1)"
      and "Type tok = LookupIdent (Literal tok)"
    | (digits) "Type tok = INT_tok"
    | (eof) "tok = \<lparr>Type = EOF, Literal = ''''\<rparr>"
    | (illegal) l1 where "skipWhitespace l = Inr l1" and "tok = newToken ILLEGAL (ch l1)"
proof (cases "skipWhitespace l")
  case (Inl e)
  with assms show ?thesis
    by (simp add: NextToken_switch)
next
  case (Inr l1)
  show ?thesis
  proof (cases "symbolType (ch l1)")
    case (Some t)
    with assms Inr have "tok = newToken t (ch l1)"
      by (auto simp: NextToken_switch readChar_return_def split: sum.splits)
    with Inr Some show ?thesis
      by (rule symbol)
  next
    case None
    consider (l) "isLetter (ch l1)" | (d) "\<not> isLetter (ch l1)" "isDigit (ch l1)"
      | (z) "\<not> isLetter (ch l1)" "\<not> isDigit (ch l1)" "ch l1 = CHR 0x00"
      | (i) "\<not> isLetter (ch l1)" "\<not> isDigit (ch l1)" "ch l1 \<noteq> CHR 0x00"
      by blast
    then show ?thesis
    proof cases
      case l
      with assms Inr None have "Type tok = LookupIdent (Literal tok)"
        by (auto simp: NextToken_switch split: sum.splits)
      with Inr l show ?thesis
        by (rule letters)
    next
      case d
      with assms Inr None have "Type tok = INT_tok"
        by (auto simp: NextToken_switch split: sum.splits)
      then show ?thesis
        by (rule digits)
    next
      case z
      with assms Inr None have "tok = \<lparr>Type = EOF, Literal = ''''\<rparr>"
        by (auto simp: NextToken_switch readChar_return_def split: sum.splits)
      then show ?thesis
        by (rule eof)
    next
      case i
      with assms Inr None have "tok = newToken ILLEGAL (ch l1)"
        by (auto simp: NextToken_switch readChar_return_def split: sum.splits)
      with Inr show ?thesis
        by (rule illegal)
    qed
  qed
qed

lemma NextTokens_all:
  fixes l :: "'a::len word Lexer"
  assumes "\<And>(l :: 'a word Lexer) tok l'. NextToken l = Inr (tok, l') \<Longrightarrow> P tok"
  shows "NextTokens n l = Inr (toks, l') \<Longrightarrow> tok \<in> set toks \<Longrightarrow> P tok"
proof (induction n arbitrary: l toks)
  case 0
  then show ?case by simp
next
  case (Suc n)
  from Suc.prems(1) obtain t l1 ts where
    "NextToken l = Inr (t, l1)" "NextTokens n l1 = Inr (ts, l')" "toks = t # ts"
    by (auto split: sum.splits prod.splits)
  with Suc.prems(2) Suc.IH [of l1 ts] assms [of l t l1] show ?case
    by auto
qed

lemma run_all:
  fixes l :: "'a::len word Lexer"
  assumes "\<And>(l :: 'a word Lexer) tok l'. NextToken l = Inr (tok, l') \<Longrightarrow> P tok"
    and "run n inp = Inr (toks, l)" and "tok \<in> set toks"
  shows "P tok"
proof -
  from assms(2) obtain l0 where "NextTokens n l0 = Inr (toks, l)"
    by (auto simp: run_def split: sum.splits)
  from NextTokens_all [where P = P, OF assms(1) this assms(3)] show ?thesis .
qed

section \<open>The bytes read by a run to the end of the input\<close>

lemma lexemes_Nil: "lexemes s = [] \<Longrightarrow> dropWhile isWhitespace s = []"
proof (cases "dropWhile isWhitespace s")
  case Nil
  then show ?thesis by simp
next
  case (Cons c cs)
  assume "lexemes s = []"
  with lexemes_headToken [OF Cons] show ?thesis
    by simp
qed

lemma stepsN_lexemes: "stepsN (length (lexemes s) + 1) s = length s + 1"
proof (induction "length (lexemes s)" arbitrary: s)
  case 0
  then have "dropWhile isWhitespace s = []"
    by (simp add: lexemes_Nil)
  with 0 show ?case
    by (simp add: steps_blank)
next
  case (Suc k)
  have "dropWhile isWhitespace s \<noteq> []"
  proof
    assume "dropWhile isWhitespace s = []"
    from lexemes_blank [OF this] Suc.hyps(2) show False
      by simp
  qed
  then obtain c cs where d: "dropWhile isWhitespace s = c # cs"
    by (cases "dropWhile isWhitespace s") blast+
  from lexemes_headToken [OF d] Suc.hyps(2) have
    k: "k = length (lexemes (snd (headToken s)))" and
    n: "length (lexemes s) = Suc (length (lexemes (snd (headToken s))))"
    by auto
  from Suc.hyps(1) [OF k] steps_token [OF d] show ?case
    unfolding n by simp
qed

section \<open>The properties of the specification\<close>

text \<open>
  C1, as amended. For every input that contains no zero byte: a run of \<open>n\<close> calls of
  \<open>NextToken\<close> from construction returns when the length of the input and \<open>n\<close> together
  do not exceed the largest \<open>int\<close>; and in every run that returns, once a call has
  returned a token of type EOF, that token and every later one is the EOF token with the
  empty literal.
\<close>

theorem eof_repeats:
  fixes l :: "'a::len word Lexer"
  assumes "CHR 0x00 \<notin> set inp"
  shows "(int (length inp) + int n \<le> MaxInt TYPE('a) \<longrightarrow>
            (\<exists>toks' (l' :: 'a word Lexer). run n inp = Inr (toks', l'))) \<and>
         (run n inp = Inr (toks, l) \<longrightarrow>
            (\<forall>i j. Type (toks ! i) = EOF \<longrightarrow> i \<le> j \<longrightarrow> j < n \<longrightarrow>
               toks ! j = \<lparr>Type = EOF, Literal = ''''\<rparr>))"
proof (intro conjI impI)
  assume "int (length inp) + int n \<le> MaxInt TYPE('a)"
  from run_in_range [OF this] show "\<exists>toks' (l' :: 'a word Lexer). run n inp = Inr (toks', l')"
    by blast
next
  assume "run n inp = Inr (toks, l)"
  from run_Inr [OF this] have toks: "toks = headTokens n inp"
    by simp
  show "\<forall>i j. Type (toks ! i) = EOF \<longrightarrow> i \<le> j \<longrightarrow> j < n \<longrightarrow>
      toks ! j = \<lparr>Type = EOF, Literal = ''''\<rparr>"
  proof (intro allI impI)
    fix i j
    assume e: "Type (toks ! i) = EOF" and ij: "i \<le> j" and j: "j < n"
    from ij j have "i < n" by simp
    with e lexemes_nth_EOF [OF assms, of i] have "\<not> i < length (lexemes inp)"
      by (auto simp: toks headTokens_nth)
    with ij have "\<not> j < length (lexemes inp)"
      by simp
    with j show "toks ! j = \<lparr>Type = EOF, Literal = ''''\<rparr>"
      by (simp add: toks headTokens_nth)
  qed
qed

text \<open>
  The instance for the input \<open>a\<close> and three calls, with cursors of 64 bits.
\<close>

theorem eof_repeats_witness:
  "CHR 0x00 \<notin> set ''a'' \<and> int (length ''a'') + int 3 \<le> MaxInt TYPE(64) \<and>
   (run 3 ''a'' :: error + (Token list \<times> 64 word Lexer)) =
     Inr ([\<lparr>Type = IDENT, Literal = ''a''\<rparr>, \<lparr>Type = EOF, Literal = ''''\<rparr>,
           \<lparr>Type = EOF, Literal = ''''\<rparr>],
          \<lparr>input = ''a'', position = 3, readPosition = 4, ch = CHR 0x00\<rparr>)"
proof -
  let ?toks = "[\<lparr>Type = IDENT, Literal = ''a''\<rparr>, \<lparr>Type = EOF, Literal = ''''\<rparr>,
           \<lparr>Type = EOF, Literal = ''''\<rparr>]"
  let ?l = "\<lparr>input = ''a'', position = 3 :: 64 word, readPosition = 4, ch = CHR 0x00\<rparr>"
  have h: "CHR 0x00 \<notin> set ''a''"
    by simp
  have b: "int (length ''a'') + int 3 \<le> MaxInt TYPE(64)"
    by (simp add: MaxInt_def)
  have r: "run 3 ''a'' = Inr (?toks, ?l)"
    by code_simp
  from eof_repeats [OF h, where n = 3 and toks = ?toks and l = ?l] b r have
    "\<exists>toks' (l' :: 64 word Lexer). run 3 ''a'' = Inr (toks', l')" and
    rep: "\<And>i j. Type (?toks ! i) = EOF \<Longrightarrow> i \<le> j \<Longrightarrow> j < 3 \<Longrightarrow>
            ?toks ! j = \<lparr>Type = EOF, Literal = ''''\<rparr>"
    by blast+
  from rep [of 1 2] have "?toks ! 2 = \<lparr>Type = EOF, Literal = ''''\<rparr>"
    by simp
  with h b r show ?thesis
    by simp
qed

text \<open>
  C1 as stated fails for an input with a zero byte, which the scanner cannot tell from
  the sentinel: on the two bytes 0 and \<open>a\<close> the first call returns EOF, advances past
  the zero byte, and the second call returns the identifier \<open>a\<close>. It also fails for a
  long run of calls: every call moves the cursors, and with cursors of 32 bits the call
  number \<open>2^31\<close> on the empty input, whose first call returns EOF, panics.
\<close>

theorem eof_then_token:
  "(run 3 [CHR 0x00, CHR ''a''] :: error + (Token list \<times> 64 word Lexer)) =
     Inr ([\<lparr>Type = EOF, Literal = ''''\<rparr>, \<lparr>Type = IDENT, Literal = ''a''\<rparr>,
           \<lparr>Type = EOF, Literal = ''''\<rparr>],
          \<lparr>input = [CHR 0x00, CHR ''a''], position = 3, readPosition = 4, ch = CHR 0x00\<rparr>) \<and>
   (run 1 '''' :: error + (Token list \<times> 32 word Lexer)) =
     Inr ([\<lparr>Type = EOF, Literal = ''''\<rparr>],
          \<lparr>input = '''', position = 1, readPosition = 2, ch = CHR 0x00\<rparr>) \<and>
   (run (2 ^ 31) '''' :: error + (Token list \<times> 32 word Lexer)) = Inl IndexOutOfRange"
proof (intro conjI)
  show "(run 3 [CHR 0x00, CHR ''a''] :: error + (Token list \<times> 64 word Lexer)) =
     Inr ([\<lparr>Type = EOF, Literal = ''''\<rparr>, \<lparr>Type = IDENT, Literal = ''a''\<rparr>,
           \<lparr>Type = EOF, Literal = ''''\<rparr>],
          \<lparr>input = [CHR 0x00, CHR ''a''], position = 3, readPosition = 4, ch = CHR 0x00\<rparr>)"
    by code_simp
  show "(run 1 '''' :: error + (Token list \<times> 32 word Lexer)) =
     Inr ([\<lparr>Type = EOF, Literal = ''''\<rparr>],
          \<lparr>input = '''', position = 1, readPosition = 2, ch = CHR 0x00\<rparr>)"
    by code_simp
  have "MaxInt TYPE(32) < int (2 ^ 31)"
    by (simp add: MaxInt_def)
  then show "(run (2 ^ 31) '''' :: error + (Token list \<times> 32 word Lexer)) = Inl IndexOutOfRange"
    by (rule run_long)
qed

text \<open>
  C2, as amended. For every byte other than the zero byte that is not one of the fourteen
  symbol characters, not an ASCII letter or underscore, not a digit and not one of the
  four whitespace characters, \<open>NextToken\<close>, with that byte as current character and a
  \<open>readPosition\<close> that is not negative, returns a token of type ILLEGAL and the scanner
  advanced by one \<open>readChar\<close>; when the byte is ASCII, the literal is that byte. For
  the zero byte as current character it returns EOF with the empty literal, and advances
  as well. A run of \<open>n\<close> calls from construction does not panic when the length of the
  input and \<open>n\<close> together do not exceed the largest \<open>int\<close>. The classes of a byte
  exclude each other: whitespace, symbol, letter or underscore, digit and the zero byte
  (read as end of input) are pairwise disjoint, and ILLEGAL is what remains.
\<close>

theorem illegal_byte:
  fixes l lz :: "'a::len word Lexer"
  shows
  "(\<not> isWhitespace (ch l) \<longrightarrow> ch l \<notin> set ''=+-!/*<>;,(){}'' \<longrightarrow> \<not> isLetter (ch l) \<longrightarrow>
      \<not> isDigit (ch l) \<longrightarrow> ch l \<noteq> CHR 0x00 \<longrightarrow> 0 \<le> sint (readPosition l) \<longrightarrow>
        (\<exists>tok l'. NextToken l = Inr (tok, l') \<and> readChar l = Inr l' \<and> Type tok = ILLEGAL \<and>
           (ch l < CHR 0x80 \<longrightarrow> Literal tok = [ch l]))) \<and>
   (ch lz = CHR 0x00 \<longrightarrow> 0 \<le> sint (readPosition lz) \<longrightarrow>
      (\<exists>l'. NextToken lz = Inr (\<lparr>Type = EOF, Literal = ''''\<rparr>, l') \<and> readChar lz = Inr l')) \<and>
   (int (length inp) + int n \<le> MaxInt TYPE('a) \<longrightarrow>
      (\<exists>toks (l' :: 'a word Lexer). run n inp = Inr (toks, l'))) \<and>
   (isWhitespace cw \<longrightarrow>
      cw \<notin> set ''=+-!/*<>;,(){}'' \<and> \<not> isLetter cw \<and> \<not> isDigit cw \<and> cw \<noteq> CHR 0x00) \<and>
   (cs \<in> set ''=+-!/*<>;,(){}'' \<longrightarrow> \<not> isLetter cs \<and> \<not> isDigit cs \<and> cs \<noteq> CHR 0x00) \<and>
   (isLetter cl \<longrightarrow> \<not> isDigit cl \<and> cl \<noteq> CHR 0x00) \<and>
   (isDigit cd \<longrightarrow> cd \<noteq> CHR 0x00)"
  (is "?illegal \<and> ?zero \<and> ?total \<and> ?ws \<and> ?sym \<and> ?letter \<and> ?digit")
proof -
  have ?zero
  proof (intro impI)
    assume z: "ch lz = CHR 0x00" and "0 \<le> sint (readPosition lz)"
    from readChar_returns [OF this(2)] obtain l' where "readChar lz = Inr l'"
      by blast
    with z show "\<exists>l'. NextToken lz = Inr (\<lparr>Type = EOF, Literal = ''''\<rparr>, l') \<and>
        readChar lz = Inr l'"
      by (simp add: NextToken_switch skipWhitespace_stop readChar_return_def)
  qed
  moreover have ?illegal
  proof (intro impI)
    assume a: "\<not> isWhitespace (ch l)" "ch l \<notin> set ''=+-!/*<>;,(){}''" "\<not> isLetter (ch l)"
      "\<not> isDigit (ch l)" "ch l \<noteq> CHR 0x00" and "0 \<le> sint (readPosition l)"
    from readChar_returns [OF this(6)] obtain l' where l': "readChar l = Inr l'"
      by blast
    from a(2) have "symbolType (ch l) = None"
      by (rule symbolType_None [THEN iffD2])
    with a l' have "NextToken l = Inr (newToken ILLEGAL (ch l), l')"
      by (simp add: NextToken_switch skipWhitespace_stop readChar_return_def)
    moreover have "ch l < CHR 0x80 \<longrightarrow> Literal (newToken ILLEGAL (ch l)) = [ch l]"
      by (simp add: newToken_def string_of_byte_def less_char_def)
    moreover have "Type (newToken ILLEGAL (ch l)) = ILLEGAL"
      by (simp add: newToken_def)
    ultimately show "\<exists>tok l'. NextToken l = Inr (tok, l') \<and> readChar l = Inr l' \<and>
        Type tok = ILLEGAL \<and> (ch l < CHR 0x80 \<longrightarrow> Literal tok = [ch l])"
      using l' by blast
  qed
  moreover have ?total
  proof
    assume "int (length inp) + int n \<le> MaxInt TYPE('a)"
    from run_in_range [OF this] show "\<exists>toks (l' :: 'a word Lexer). run n inp = Inr (toks, l')"
      by blast
  qed
  moreover from whitespace_class [of cw] have ?ws
    by blast
  moreover from symbol_class [of cs] have ?sym
    by blast
  moreover have ?letter
    using digit_not_letter [of cl] by auto
  moreover have ?digit
    by auto
  ultimately show ?thesis
    by blast
qed

text \<open>
  The instance, with cursors of 64 bits, for the scanner constructed on \<open>@\<close>, for the
  scanner constructed on the empty input, for a run of two calls on \<open>@\<close>, and for the
  bytes space, \<open>+\<close>, \<open>a\<close> and \<open>7\<close> as the bytes classified.
\<close>

theorem illegal_byte_witness:
  "\<not> isWhitespace (CHR ''@'') \<and> CHR ''@'' \<notin> set ''=+-!/*<>;,(){}'' \<and>
   \<not> isLetter (CHR ''@'') \<and> \<not> isDigit (CHR ''@'') \<and> CHR ''@'' \<noteq> CHR 0x00 \<and>
   CHR ''@'' < CHR 0x80 \<and> 0 \<le> sint (1 :: 64 word) \<and>
   New ''@'' = Inr \<lparr>input = ''@'', position = 0 :: 64 word, readPosition = 1, ch = CHR ''@''\<rparr> \<and>
   NextToken \<lparr>input = ''@'', position = 0 :: 64 word, readPosition = 1, ch = CHR ''@''\<rparr> =
     Inr (\<lparr>Type = ILLEGAL, Literal = ''@''\<rparr>,
          \<lparr>input = ''@'', position = 1, readPosition = 2, ch = CHR 0x00\<rparr>) \<and>
   New '''' = Inr \<lparr>input = '''', position = 0 :: 64 word, readPosition = 1, ch = CHR 0x00\<rparr> \<and>
   NextToken \<lparr>input = '''', position = 0 :: 64 word, readPosition = 1, ch = CHR 0x00\<rparr> =
     Inr (\<lparr>Type = EOF, Literal = ''''\<rparr>,
          \<lparr>input = '''', position = 1, readPosition = 2, ch = CHR 0x00\<rparr>) \<and>
   int (length ''@'') + int 2 \<le> MaxInt TYPE(64) \<and>
   (run 2 ''@'' :: error + (Token list \<times> 64 word Lexer)) =
     Inr ([\<lparr>Type = ILLEGAL, Literal = ''@''\<rparr>, \<lparr>Type = EOF, Literal = ''''\<rparr>],
          \<lparr>input = ''@'', position = 2, readPosition = 3, ch = CHR 0x00\<rparr>) \<and>
   isWhitespace (CHR '' '') \<and> CHR '' '' \<notin> set ''=+-!/*<>;,(){}'' \<and> \<not> isLetter (CHR '' '') \<and>
   CHR ''+'' \<in> set ''=+-!/*<>;,(){}'' \<and> \<not> isLetter (CHR ''+'') \<and> \<not> isDigit (CHR ''+'') \<and>
   isLetter (CHR ''a'') \<and> \<not> isDigit (CHR ''a'') \<and>
   isDigit (CHR ''7'') \<and> CHR ''7'' \<noteq> CHR 0x00"
proof -
  let ?l = "\<lparr>input = ''@'', position = 0 :: 64 word, readPosition = 1, ch = CHR ''@''\<rparr>"
  let ?z = "\<lparr>input = '''', position = 0 :: 64 word, readPosition = 1, ch = CHR 0x00\<rparr>"
  have h: "\<not> isWhitespace (ch ?l)" "ch ?l \<notin> set ''=+-!/*<>;,(){}''"
    "\<not> isLetter (ch ?l)" "\<not> isDigit (ch ?l)" "ch ?l \<noteq> CHR 0x00"
    "ch ?l < CHR 0x80" "0 \<le> sint (readPosition ?l)"
    by (simp_all add: isWhitespace_def isLetter_def isDigit_def)
  have z: "ch ?z = CHR 0x00" "0 \<le> sint (readPosition ?z)"
    by simp_all
  have b: "int (length ''@'') + int 2 \<le> MaxInt TYPE(64)"
    by (simp add: MaxInt_def)
  have w: "isWhitespace (CHR '' '')" "CHR ''+'' \<in> set ''=+-!/*<>;,(){}''" "isLetter (CHR ''a'')"
    "isDigit (CHR ''7'')"
    by (simp_all add: isWhitespace_def isLetter_def isDigit_def)
  have n: "New ''@'' = Inr ?l" "New '''' = Inr ?z"
    by code_simp+
  have r: "readChar ?l = Inr \<lparr>input = ''@'', position = 1, readPosition = 2, ch = CHR 0x00\<rparr>"
    "readChar ?z = Inr \<lparr>input = '''', position = 1, readPosition = 2, ch = CHR 0x00\<rparr>"
    by code_simp+
  have two: "(run 2 ''@'' :: error + (Token list \<times> 64 word Lexer)) =
     Inr ([\<lparr>Type = ILLEGAL, Literal = ''@''\<rparr>, \<lparr>Type = EOF, Literal = ''''\<rparr>],
          \<lparr>input = ''@'', position = 2, readPosition = 3, ch = CHR 0x00\<rparr>)"
    by code_simp
  note ib = illegal_byte [where l = ?l and lz = ?z and inp = "''@''" and n = 2
      and cw = "CHR '' ''" and cs = "CHR ''+''" and cl = "CHR ''a''" and cd = "CHR ''7''"]
  from ib [THEN conjunct1, rule_format, OF h(1-5,7)] h(6) obtain tok l' where
    "NextToken ?l = Inr (tok, l')" "readChar ?l = Inr l'" "Type tok = ILLEGAL"
    "Literal tok = [ch ?l]"
    by blast
  with r(1) have i: "NextToken ?l =
      Inr (\<lparr>Type = ILLEGAL, Literal = ''@''\<rparr>,
           \<lparr>input = ''@'', position = 1, readPosition = 2, ch = CHR 0x00\<rparr>)"
    by (cases tok) simp
  from ib [THEN conjunct2, THEN conjunct1, rule_format, OF z] r(2) have e: "NextToken ?z =
      Inr (\<lparr>Type = EOF, Literal = ''''\<rparr>,
           \<lparr>input = '''', position = 1, readPosition = 2, ch = CHR 0x00\<rparr>)"
    by auto
  from ib [THEN conjunct2, THEN conjunct2, THEN conjunct2] w
  have c: "CHR '' '' \<notin> set ''=+-!/*<>;,(){}''" "\<not> isLetter (CHR '' '')"
    "\<not> isLetter (CHR ''+'')" "\<not> isDigit (CHR ''+'')" "\<not> isDigit (CHR ''a'')"
    "CHR ''7'' \<noteq> CHR 0x00"
    by blast+
  from h b w n two i e c show ?thesis
    by simp
qed

text \<open>
  C2 as stated fails for the zero byte, for which \<open>NextToken\<close> returns EOF with the empty
  literal; for a byte from 0x80 on, where the literal of the ILLEGAL token is not that
  byte but the two bytes of its UTF-8 encoding; and for a long run of calls, which
  panics: with cursors of 32 bits, the run of \<open>2^31\<close> calls on the empty input.
\<close>

theorem zero_and_high_bytes:
  "(run 1 [CHR 0x00] :: error + (Token list \<times> 64 word Lexer)) =
     Inr ([\<lparr>Type = EOF, Literal = ''''\<rparr>],
          \<lparr>input = [CHR 0x00], position = 1, readPosition = 2, ch = CHR 0x00\<rparr>) \<and>
   (run 1 [CHR 0xF8] :: error + (Token list \<times> 64 word Lexer)) =
     Inr ([\<lparr>Type = ILLEGAL, Literal = [CHR 0xC3, CHR 0xB8]\<rparr>],
          \<lparr>input = [CHR 0xF8], position = 1, readPosition = 2, ch = CHR 0x00\<rparr>) \<and>
   (run (2 ^ 31) '''' :: error + (Token list \<times> 32 word Lexer)) = Inl IndexOutOfRange"
proof (intro conjI)
  show "(run 1 [CHR 0x00] :: error + (Token list \<times> 64 word Lexer)) =
     Inr ([\<lparr>Type = EOF, Literal = ''''\<rparr>],
          \<lparr>input = [CHR 0x00], position = 1, readPosition = 2, ch = CHR 0x00\<rparr>)"
    by code_simp
  show "(run 1 [CHR 0xF8] :: error + (Token list \<times> 64 word Lexer)) =
     Inr ([\<lparr>Type = ILLEGAL, Literal = [CHR 0xC3, CHR 0xB8]\<rparr>],
          \<lparr>input = [CHR 0xF8], position = 1, readPosition = 2, ch = CHR 0x00\<rparr>)"
    by code_simp
  have "MaxInt TYPE(32) < int (2 ^ 31)"
    by (simp add: MaxInt_def)
  then show "(run (2 ^ 31) '''' :: error + (Token list \<times> 32 word Lexer)) = Inl IndexOutOfRange"
    by (rule run_long)
qed

text \<open>
  C3, as amended. Whenever the current byte of the scanner is the end-of-input sentinel
  and \<open>readPosition\<close> is not negative, \<open>NextToken\<close> returns the token of type EOF with
  the empty literal. The call is not without effect on the cursor: it ends with the
  \<open>readChar\<close> that every branch without a \<open>return\<close> of its own runs, so \<open>position\<close>
  takes the old \<open>readPosition\<close> and \<open>readPosition\<close> grows by one: in the arithmetic
  of \<open>int\<close> always, and as a number when it was below the largest \<open>int\<close>. The input
  is unchanged, and \<open>ch\<close> stays the sentinel when the old \<open>readPosition\<close> is at or past
  the end of the input.
\<close>

theorem eof_call_reads_on:
  fixes l :: "'a::len word Lexer"
  assumes "ch l = CHR 0x00" and "0 \<le> sint (readPosition l)"
  shows "\<exists>l'. NextToken l = Inr (\<lparr>Type = EOF, Literal = ''''\<rparr>, l') \<and> readChar l = Inr l' \<and>
     input l' = input l \<and>
     position l' = readPosition l \<and>
     readPosition l' = readPosition l + 1 \<and>
     (sint (readPosition l) < MaxInt TYPE('a) \<longrightarrow>
        sint (readPosition l') = sint (readPosition l) + 1) \<and>
     (int (length (input l)) \<le> sint (readPosition l) \<longrightarrow> ch l' = CHR 0x00)"
proof -
  from readChar_returns [OF assms(2)] obtain l' where l': "readChar l = Inr l'"
    by blast
  with assms(1) have "NextToken l = Inr (\<lparr>Type = EOF, Literal = ''''\<rparr>, l')"
    by (simp add: NextToken_switch skipWhitespace_stop readChar_return_def)
  moreover from readChar_Inr [OF l'] have "input l' = input l" "position l' = readPosition l"
    "readPosition l' = readPosition l + 1"
    "int (length (input l)) \<le> sint (readPosition l) \<longrightarrow> ch l' = CHR 0x00"
    by simp_all
  moreover from this(3) have "sint (readPosition l) < MaxInt TYPE('a) \<longrightarrow>
      sint (readPosition l') = sint (readPosition l) + 1"
    by (simp add: sint_succ)
  ultimately show ?thesis
    using l' by blast
qed

text \<open>
  The instance for the scanner of 64 bits constructed on the empty input.
\<close>

theorem eof_call_reads_on_witness:
  "ch \<lparr>input = '''', position = 0 :: 64 word, readPosition = 1, ch = CHR 0x00\<rparr> = CHR 0x00 \<and>
   0 \<le> sint (readPosition \<lparr>input = '''', position = 0 :: 64 word, readPosition = 1, ch = CHR 0x00\<rparr>) \<and>
   NextToken \<lparr>input = '''', position = 0 :: 64 word, readPosition = 1, ch = CHR 0x00\<rparr> =
     Inr (\<lparr>Type = EOF, Literal = ''''\<rparr>,
          \<lparr>input = '''', position = 1, readPosition = 2, ch = CHR 0x00\<rparr>)"
proof -
  let ?l = "\<lparr>input = '''', position = 0 :: 64 word, readPosition = 1, ch = CHR 0x00\<rparr>"
  have h: "ch ?l = CHR 0x00" "0 \<le> sint (readPosition ?l)"
    by simp_all
  have r: "readChar ?l = Inr \<lparr>input = '''', position = 1, readPosition = 2, ch = CHR 0x00\<rparr>"
    by code_simp
  from eof_call_reads_on [OF h] obtain l' where
    "NextToken ?l = Inr (\<lparr>Type = EOF, Literal = ''''\<rparr>, l')" "readChar ?l = Inr l'"
    by blast
  with r h show ?thesis
    by simp
qed

text \<open>
  C3 as stated fails: on the empty input the scanner is constructed with the sentinel as
  current byte, \<open>position\<close> 0 and \<open>readPosition\<close> 1, and the first \<open>NextToken\<close> leaves it
  with \<open>position\<close> 1 and \<open>readPosition\<close> 2.
\<close>

theorem eof_call_moves_cursor:
  "(New '''' :: error + 64 word Lexer) =
     Inr \<lparr>input = '''', position = 0, readPosition = 1, ch = CHR 0x00\<rparr> \<and>
   NextToken \<lparr>input = '''', position = 0 :: 64 word, readPosition = 1, ch = CHR 0x00\<rparr> =
     Inr (\<lparr>Type = EOF, Literal = ''''\<rparr>,
          \<lparr>input = '''', position = 1, readPosition = 2, ch = CHR 0x00\<rparr>)"
  by code_simp

text \<open>
  C4, as amended. Every call of \<open>NextToken\<close> terminates: the three loops are defined
  with a termination proof. For every input that contains no zero byte, with \<open>k\<close> the
  number of its lexemes: the run of \<open>k + 1\<close> calls from construction returns when the
  input is shorter than the largest \<open>int\<close>; and when it returns, the first \<open>k\<close> calls
  have returned tokens that are not EOF, the token of an ASCII lexeme carrying the lexeme
  as literal, and call \<open>k + 1\<close> has returned EOF.
\<close>

theorem calls_until_EOF:
  fixes l :: "'a::len word Lexer"
  assumes "CHR 0x00 \<notin> set inp"
  shows
  "(int (length inp) < MaxInt TYPE('a) \<longrightarrow>
      (\<exists>toks' (l' :: 'a word Lexer). run (length (lexemes inp) + 1) inp = Inr (toks', l'))) \<and>
   (run (length (lexemes inp) + 1) inp = Inr (toks, l) \<longrightarrow>
      length toks = length (lexemes inp) + 1 \<and>
      (\<forall>i < length (lexemes inp). Type (toks ! i) \<noteq> EOF \<and>
         (hd (lexemes inp ! i) < CHR 0x80 \<longrightarrow> Literal (toks ! i) = lexemes inp ! i)) \<and>
      toks ! length (lexemes inp) = \<lparr>Type = EOF, Literal = ''''\<rparr>)"
proof (intro conjI impI)
  assume "int (length inp) < MaxInt TYPE('a)"
  then have "int (length inp + 1) \<le> MaxInt TYPE('a)"
    by simp
  then have "int (stepsN (length (lexemes inp) + 1) inp) \<le> MaxInt TYPE('a)"
    by (simp only: stepsN_lexemes)
  from run_returns [OF this]
  show "\<exists>toks' (l' :: 'a word Lexer). run (length (lexemes inp) + 1) inp = Inr (toks', l')"
    by blast
next
  define k where "k = length (lexemes inp)"
  assume "run (length (lexemes inp) + 1) inp = Inr (toks, l)"
  from run_Inr [OF this] have toks: "toks = headTokens (k + 1) inp"
    by (simp add: k_def)
  then show "length toks = length (lexemes inp) + 1"
    by (simp add: k_def)
  have "Type (toks ! i) \<noteq> EOF \<and>
      (hd (lexemes inp ! i) < CHR 0x80 \<longrightarrow> Literal (toks ! i) = lexemes inp ! i)"
    if "i < k" for i
  proof -
    from that have m: "lexemes inp ! i \<in> set (lexemes inp)"
      by (simp add: k_def)
    then obtain c xs where "lexemes inp ! i = c # xs" "c \<in> set inp"
      by (rule lexemes_hd)
    with assms have "hd (lexemes inp ! i) \<noteq> CHR 0x00"
      by auto
    with that lexemes_nth_EOF [OF assms, of i] lexToken_Literal [OF m] show ?thesis
      by (simp add: toks headTokens_nth k_def)
  qed
  then show "\<forall>i < length (lexemes inp). Type (toks ! i) \<noteq> EOF \<and>
         (hd (lexemes inp ! i) < CHR 0x80 \<longrightarrow> Literal (toks ! i) = lexemes inp ! i)"
    by (simp add: k_def)
  show "toks ! length (lexemes inp) = \<lparr>Type = EOF, Literal = ''''\<rparr>"
    by (simp add: toks headTokens_nth k_def)
qed

text \<open>
  The instance for the input \<open>x = 5\<close> and cursors of 64 bits: three lexemes, EOF at the
  fourth call.
\<close>

theorem calls_until_EOF_witness:
  "CHR 0x00 \<notin> set ''x = 5'' \<and> int (length ''x = 5'') < MaxInt TYPE(64) \<and>
   length (lexemes ''x = 5'') = 3 \<and>
   (run 4 ''x = 5'' :: error + (Token list \<times> 64 word Lexer)) =
     Inr ([\<lparr>Type = IDENT, Literal = ''x''\<rparr>, \<lparr>Type = ASSIGN, Literal = ''=''\<rparr>,
           \<lparr>Type = INT_tok, Literal = ''5''\<rparr>, \<lparr>Type = EOF, Literal = ''''\<rparr>],
          \<lparr>input = ''x = 5'', position = 6, readPosition = 7, ch = CHR 0x00\<rparr>)"
proof -
  let ?toks = "[\<lparr>Type = IDENT, Literal = ''x''\<rparr>, \<lparr>Type = ASSIGN, Literal = ''=''\<rparr>,
           \<lparr>Type = INT_tok, Literal = ''5''\<rparr>, \<lparr>Type = EOF, Literal = ''''\<rparr>]"
  let ?l = "\<lparr>input = ''x = 5'', position = 6 :: 64 word, readPosition = 7, ch = CHR 0x00\<rparr>"
  have h: "CHR 0x00 \<notin> set ''x = 5''"
    by simp
  have b: "int (length ''x = 5'') < MaxInt TYPE(64)"
    by (simp add: MaxInt_def)
  have k: "length (lexemes ''x = 5'') = 3"
    by code_simp
  have r: "run 4 ''x = 5'' = Inr (?toks, ?l)"
    by code_simp
  then have r': "run (length (lexemes ''x = 5'') + 1) ''x = 5'' = Inr (?toks, ?l)"
    by (simp only: k) simp
  from calls_until_EOF [OF h, where toks = ?toks and l = ?l] b r' have
    "?toks ! length (lexemes ''x = 5'') = \<lparr>Type = EOF, Literal = ''''\<rparr>"
    by blast
  with h b k r show ?thesis
    by simp
qed

text \<open>
  C4 as stated fails for an input with a zero byte: the two bytes 0 and \<open>a\<close> hold
  the lexeme \<open>a\<close>, and the first call already returns EOF.
\<close>

theorem early_EOF_before_lexeme:
  "lexemes [CHR 0x00, CHR ''a''] = [[CHR 0x00], ''a''] \<and>
   (run 1 [CHR 0x00, CHR ''a''] :: error + (Token list \<times> 64 word Lexer)) =
     Inr ([\<lparr>Type = EOF, Literal = ''''\<rparr>],
          \<lparr>input = [CHR 0x00, CHR ''a''], position = 1, readPosition = 2, ch = CHR ''a''\<rparr>)"
  by code_simp

text \<open>
  C5, as amended. Let \<open>w\<close> consist of spaces, tabs, newlines and carriage returns, and let
  the place between \<open>u\<close> and \<open>v\<close> lie between lexemes: no run of letters and no run of
  digits continues from \<open>u\<close> into \<open>v\<close>. Then the inputs \<open>u @ v\<close> and \<open>u @ w @ v\<close>, each
  the other with \<open>w\<close> inserted or removed at that place, give the same tokens: the runs
  of \<open>n\<close> calls on both return the same tokens when the length of the longer input and
  \<open>n\<close> together do not exceed the largest \<open>int\<close>, and whenever both runs return,
  their tokens are the same. No literal of these tokens contains a whitespace character.
  Any number of such insertions and removals gives the same tokens in turn, the conclusion
  being an equality.
\<close>

theorem whitespace_invisible:
  fixes l l' :: "'a::len word Lexer"
  assumes "list_all isWhitespace w" and "between_lexemes u v"
  shows
  "(int (length (u @ w @ v)) + int n \<le> MaxInt TYPE('a) \<longrightarrow>
      (\<exists>toks0 (l1 :: 'a word Lexer) (l2 :: 'a word Lexer).
          run n (u @ v) = Inr (toks0, l1) \<and>
          run n (u @ w @ v) = Inr (toks0, l2) \<and>
          (\<forall>tok\<in>set toks0. \<forall>b\<in>set (Literal tok). \<not> isWhitespace b))) \<and>
   (run n (u @ v) = Inr (toks, l) \<longrightarrow> run n (u @ w @ v) = Inr (toks', l') \<longrightarrow>
      toks' = toks \<and> (\<forall>tok\<in>set toks. \<forall>b\<in>set (Literal tok). \<not> isWhitespace b))"
proof -
  from lexemes_insert_whitespace [OF assms]
  have eq: "headTokens n (u @ w @ v) = headTokens n (u @ v)"
    by (simp add: headTokens_lexemes)
  have ws: "\<forall>tok\<in>set (headTokens n (u @ v)). \<forall>b\<in>set (Literal tok). \<not> isWhitespace b"
    by (blast dest: headTokens_no_whitespace)
  show ?thesis
  proof (intro conjI impI)
    assume b: "int (length (u @ w @ v)) + int n \<le> MaxInt TYPE('a)"
    then have "int (length (u @ v)) + int n \<le> MaxInt TYPE('a)"
      by simp
    from run_in_range [OF this] run_in_range [OF b] eq ws
    show "\<exists>toks0 (l1 :: 'a word Lexer) (l2 :: 'a word Lexer).
          run n (u @ v) = Inr (toks0, l1) \<and>
          run n (u @ w @ v) = Inr (toks0, l2) \<and>
          (\<forall>tok\<in>set toks0. \<forall>b\<in>set (Literal tok). \<not> isWhitespace b)"
      by (metis (no_types, lifting))
  next
    assume "run n (u @ v) = Inr (toks, l)" and "run n (u @ w @ v) = Inr (toks', l')"
    from run_Inr [OF this(1)] run_Inr [OF this(2)] eq have "toks = headTokens n (u @ v)"
      "toks' = toks"
      by simp_all
    with ws show "toks' = toks" "\<forall>tok\<in>set toks. \<forall>b\<in>set (Literal tok). \<not> isWhitespace b"
      by simp_all
  qed
qed

text \<open>
  The instance that inserts a space and a tab between \<open>a\<close> and \<open>+b\<close>, with cursors of
  64 bits.
\<close>

theorem whitespace_invisible_witness:
  "list_all isWhitespace [CHR '' '', CHR 0x09] \<and> between_lexemes ''a'' ''+b'' \<and>
   int (length (''a'' @ [CHR '' '', CHR 0x09] @ ''+b'')) + int 4 \<le> MaxInt TYPE(64) \<and>
   (run 4 (''a'' @ ''+b'') :: error + (Token list \<times> 64 word Lexer)) =
     Inr ([\<lparr>Type = IDENT, Literal = ''a''\<rparr>, \<lparr>Type = PLUS, Literal = ''+''\<rparr>,
           \<lparr>Type = IDENT, Literal = ''b''\<rparr>, \<lparr>Type = EOF, Literal = ''''\<rparr>],
          \<lparr>input = ''a+b'', position = 4, readPosition = 5, ch = CHR 0x00\<rparr>) \<and>
   (run 4 (''a'' @ [CHR '' '', CHR 0x09] @ ''+b'') :: error + (Token list \<times> 64 word Lexer)) =
     Inr ([\<lparr>Type = IDENT, Literal = ''a''\<rparr>, \<lparr>Type = PLUS, Literal = ''+''\<rparr>,
           \<lparr>Type = IDENT, Literal = ''b''\<rparr>, \<lparr>Type = EOF, Literal = ''''\<rparr>],
          \<lparr>input = [CHR ''a'', CHR '' '', CHR 0x09, CHR ''+'', CHR ''b''], position = 6,
             readPosition = 7, ch = CHR 0x00\<rparr>)"
proof -
  let ?toks = "[\<lparr>Type = IDENT, Literal = ''a''\<rparr>, \<lparr>Type = PLUS, Literal = ''+''\<rparr>,
           \<lparr>Type = IDENT, Literal = ''b''\<rparr>, \<lparr>Type = EOF, Literal = ''''\<rparr>]"
  let ?l1 = "\<lparr>input = ''a+b'', position = 4 :: 64 word, readPosition = 5, ch = CHR 0x00\<rparr>"
  let ?l2 = "\<lparr>input = [CHR ''a'', CHR '' '', CHR 0x09, CHR ''+'', CHR ''b''],
    position = 6 :: 64 word, readPosition = 7, ch = CHR 0x00\<rparr>"
  have h1: "list_all isWhitespace [CHR '' '', CHR 0x09]"
    by (simp add: isWhitespace_def)
  have h2: "between_lexemes ''a'' ''+b''"
    by (simp add: between_lexemes_def isLetter_def isDigit_def)
  have b: "int (length (''a'' @ [CHR '' '', CHR 0x09] @ ''+b'')) + int 4 \<le> MaxInt TYPE(64)"
    by (simp add: MaxInt_def)
  have r1: "run 4 (''a'' @ ''+b'') = Inr (?toks, ?l1)"
    by code_simp
  have r2: "run 4 (''a'' @ [CHR '' '', CHR 0x09] @ ''+b'') = Inr (?toks, ?l2)"
    by code_simp
  from whitespace_invisible [OF h1 h2, where n = 4 and toks = ?toks and l = ?l1
      and toks' = ?toks and l' = ?l2] b r1 r2
  have "\<forall>tok\<in>set ?toks. \<forall>b\<in>set (Literal tok). \<not> isWhitespace b"
    by blast
  with h1 h2 b r1 r2 show ?thesis
    by blast
qed

text \<open>
  C5 as stated fails where the whitespace removed is all that separates two letter runs:
  \<open>a b\<close> has the lexemes \<open>a\<close> and \<open>b\<close> and scans as two identifiers; with the space
  between them removed, \<open>ab\<close> scans as one.
\<close>

theorem whitespace_removal_joins_letters:
  "list_all isWhitespace '' '' \<and> lexemes (''a'' @ '' '' @ ''b'') = [''a'', ''b''] \<and>
   (run 3 (''a'' @ '' '' @ ''b'') :: error + (Token list \<times> 64 word Lexer)) =
     Inr ([\<lparr>Type = IDENT, Literal = ''a''\<rparr>, \<lparr>Type = IDENT, Literal = ''b''\<rparr>,
           \<lparr>Type = EOF, Literal = ''''\<rparr>],
          \<lparr>input = ''a b'', position = 4, readPosition = 5, ch = CHR 0x00\<rparr>) \<and>
   (run 3 (''a'' @ ''b'') :: error + (Token list \<times> 64 word Lexer)) =
     Inr ([\<lparr>Type = IDENT, Literal = ''ab''\<rparr>, \<lparr>Type = EOF, Literal = ''''\<rparr>,
           \<lparr>Type = EOF, Literal = ''''\<rparr>],
          \<lparr>input = ''ab'', position = 4, readPosition = 5, ch = CHR 0x00\<rparr>)"
  by code_simp

text \<open>
  C6, as amended. For every non-empty input that consists of ASCII letters and
  underscores only, the first two calls return one token whose literal is the whole input
  and whose type is the keyword lookup of the whole input, and then EOF: the run of two
  calls returns these when the input is shorter than the largest \<open>int\<close>, and never
  returns anything else.
\<close>

theorem letters_one_token:
  fixes l :: "'a::len word Lexer"
  assumes "inp \<noteq> []" and "list_all isLetter inp"
  shows
  "(int (length inp) < MaxInt TYPE('a) \<longrightarrow>
      (\<exists>l' :: 'a word Lexer. run 2 inp =
         Inr ([\<lparr>Type = LookupIdent inp, Literal = inp\<rparr>, \<lparr>Type = EOF, Literal = ''''\<rparr>], l'))) \<and>
   (run 2 inp = Inr (toks, l) \<longrightarrow>
      toks = [\<lparr>Type = LookupIdent inp, Literal = inp\<rparr>, \<lparr>Type = EOF, Literal = ''''\<rparr>])"
proof -
  from assms obtain c cs where inp: "inp = c # cs" and c: "isLetter c"
    by (cases inp) (auto simp: list_all_iff)
  then have "lexToken inp = \<lparr>Type = LookupIdent inp, Literal = inp\<rparr>"
    by (simp add: lexToken_def symbolType_letter)
  with lexemes_letters [OF assms] have two: "headTokens 2 inp =
      [\<lparr>Type = LookupIdent inp, Literal = inp\<rparr>, \<lparr>Type = EOF, Literal = ''''\<rparr>]"
    by (simp add: headTokens_lexemes)
  have "length (lexemes inp) + 1 = 2"
    by (simp add: lexemes_letters [OF assms])
  with stepsN_lexemes [of inp] have n: "stepsN 2 inp = length inp + 1"
    by (simp only:)
  show ?thesis
  proof (intro conjI impI)
    assume "int (length inp) < MaxInt TYPE('a)"
    with n have "int (stepsN 2 inp) \<le> MaxInt TYPE('a)"
      by simp
    from run_returns [OF this] two
    show "\<exists>l' :: 'a word Lexer. run 2 inp =
         Inr ([\<lparr>Type = LookupIdent inp, Literal = inp\<rparr>, \<lparr>Type = EOF, Literal = ''''\<rparr>], l')"
      by auto
  next
    assume "run 2 inp = Inr (toks, l)"
    from run_Inr [OF this] two
    show "toks = [\<lparr>Type = LookupIdent inp, Literal = inp\<rparr>, \<lparr>Type = EOF, Literal = ''''\<rparr>]"
      by simp
  qed
qed

text \<open>
  The instance for the input \<open>foo_bar\<close> and cursors of 64 bits.
\<close>

theorem letters_one_token_witness:
  "''foo_bar'' \<noteq> [] \<and> list_all isLetter ''foo_bar'' \<and>
   int (length ''foo_bar'') < MaxInt TYPE(64) \<and>
   (run 2 ''foo_bar'' :: error + (Token list \<times> 64 word Lexer)) =
     Inr ([\<lparr>Type = IDENT, Literal = ''foo_bar''\<rparr>, \<lparr>Type = EOF, Literal = ''''\<rparr>],
          \<lparr>input = ''foo_bar'', position = 8, readPosition = 9, ch = CHR 0x00\<rparr>)"
proof -
  let ?l = "\<lparr>input = ''foo_bar'', position = 8 :: 64 word, readPosition = 9, ch = CHR 0x00\<rparr>"
  have h1: "''foo_bar'' \<noteq> []"
    by simp
  have h2: "list_all isLetter ''foo_bar''"
    by (simp add: isLetter_def)
  have b: "int (length ''foo_bar'') < MaxInt TYPE(64)"
    by (simp add: MaxInt_def)
  have r: "run 2 ''foo_bar'' =
     Inr ([\<lparr>Type = IDENT, Literal = ''foo_bar''\<rparr>, \<lparr>Type = EOF, Literal = ''''\<rparr>], ?l)"
    by code_simp
  from letters_one_token [OF h1 h2, where l = ?l] b r
  have "[\<lparr>Type = IDENT, Literal = ''foo_bar''\<rparr>, \<lparr>Type = EOF, Literal = ''''\<rparr>] =
      [\<lparr>Type = LookupIdent ''foo_bar'', Literal = ''foo_bar''\<rparr>, \<lparr>Type = EOF, Literal = ''''\<rparr>]"
    by blast
  with h1 h2 b r show ?thesis
    by simp
qed

text \<open>
  C6 as stated fails for the empty input, which consists of letters only in the vacuous
  sense: no token comes before EOF.
\<close>

theorem empty_input_no_token:
  "list_all isLetter '''' \<and>
   (run 2 '''' :: error + (Token list \<times> 64 word Lexer)) =
     Inr ([\<lparr>Type = EOF, Literal = ''''\<rparr>, \<lparr>Type = EOF, Literal = ''''\<rparr>],
          \<lparr>input = '''', position = 2, readPosition = 3, ch = CHR 0x00\<rparr>)"
  by code_simp

text \<open>
  C7. Scanning \<open>let\<close> returns the token LET with literal \<open>let\<close> and then EOF; scanning
  \<open>lett\<close> returns IDENT with literal \<open>lett\<close> and then EOF; scanning \<open>let x\<close> returns
  LET with literal \<open>let\<close>, IDENT with literal \<open>x\<close> and EOF. In general: when the
  unread text of a scanner starts, after whitespace, with a letter or underscore,
  \<open>NextToken\<close> returns as literal the maximal run of letters and underscores that
  starts there, no more and no less, and leaves the scanner right behind that run; the
  type is the one that the keyword table gives for this whole literal when the literal is
  in the table, and that type is not IDENT; it is IDENT when the literal is not in the
  table. In a run from construction this holds of the token of every lexeme that starts
  with a letter or underscore.
\<close>

theorem keyword_precedence:
  fixes l l1 l' lr :: "'a::len word Lexer"
  shows
  "(run 2 ''let'' :: error + (Token list \<times> 64 word Lexer)) =
     Inr ([\<lparr>Type = LET, Literal = ''let''\<rparr>, \<lparr>Type = EOF, Literal = ''''\<rparr>],
          \<lparr>input = ''let'', position = 4, readPosition = 5, ch = CHR 0x00\<rparr>) \<and>
   (run 2 ''lett'' :: error + (Token list \<times> 64 word Lexer)) =
     Inr ([\<lparr>Type = IDENT, Literal = ''lett''\<rparr>, \<lparr>Type = EOF, Literal = ''''\<rparr>],
          \<lparr>input = ''lett'', position = 5, readPosition = 6, ch = CHR 0x00\<rparr>) \<and>
   (run 3 ''let x'' :: error + (Token list \<times> 64 word Lexer)) =
     Inr ([\<lparr>Type = LET, Literal = ''let''\<rparr>, \<lparr>Type = IDENT, Literal = ''x''\<rparr>,
           \<lparr>Type = EOF, Literal = ''''\<rparr>],
          \<lparr>input = ''let x'', position = 6, readPosition = 7, ch = CHR 0x00\<rparr>) \<and>
   (NextToken l = Inr (tok, l') \<longrightarrow> skipWhitespace l = Inr l1 \<longrightarrow> isLetter (ch l1) \<longrightarrow>
      (Literal tok \<in> dom keywords_map \<longrightarrow>
         keywords_map (Literal tok) = Some (Type tok) \<and> Type tok \<noteq> IDENT) \<and>
      (Literal tok \<notin> dom keywords_map \<longrightarrow> Type tok = IDENT)) \<and>
   (NextToken l = Inr (tok, l') \<longrightarrow> primed l \<longrightarrow>
      dropWhile isWhitespace (rest l) = c # cs \<longrightarrow> isLetter c \<longrightarrow>
        Literal tok = takeWhile isLetter (c # cs) \<and>
        Type tok = LookupIdent (takeWhile isLetter (c # cs)) \<and> primed l' \<and>
        rest l' = dropWhile isLetter (c # cs)) \<and>
   (run n inp = Inr (toks, lr) \<longrightarrow>
      (\<forall>i < n. i < length (lexemes inp) \<longrightarrow> isLetter (hd (lexemes inp ! i)) \<longrightarrow>
         Literal (toks ! i) = lexemes inp ! i \<and>
         (lexemes inp ! i \<in> dom keywords_map \<longrightarrow>
            keywords_map (lexemes inp ! i) = Some (Type (toks ! i)) \<and> Type (toks ! i) \<noteq> IDENT) \<and>
         (lexemes inp ! i \<notin> dom keywords_map \<longrightarrow> Type (toks ! i) = IDENT)))"
  (is "?let \<and> ?lett \<and> ?letx \<and> ?type \<and> ?literal \<and> ?run")
proof -
  have kw: "(x \<in> dom keywords_map \<longrightarrow>
         keywords_map x = Some (LookupIdent x) \<and> LookupIdent x \<noteq> IDENT) \<and>
      (x \<notin> dom keywords_map \<longrightarrow> LookupIdent x = IDENT)" for x
    by (auto simp: LookupIdent_def keywords_map_cases tag_defs split: if_splits)
  have ?let
    by code_simp
  moreover have ?lett
    by code_simp
  moreover have ?letx
    by code_simp
  moreover have ?type
  proof (intro impI)
    assume "NextToken l = Inr (tok, l')" and s: "skipWhitespace l = Inr l1"
      and c: "isLetter (ch l1)"
    then have "Type tok = LookupIdent (Literal tok)"
      by (auto simp: NextToken_switch symbolType_letter split: sum.splits)
    with kw [of "Literal tok"]
    show "(Literal tok \<in> dom keywords_map \<longrightarrow>
         keywords_map (Literal tok) = Some (Type tok) \<and> Type tok \<noteq> IDENT) \<and>
      (Literal tok \<notin> dom keywords_map \<longrightarrow> Type tok = IDENT)"
      by simp
  qed
  moreover have ?literal
  proof (intro impI)
    assume r: "NextToken l = Inr (tok, l')" and p: "primed l"
      and d: "dropWhile isWhitespace (rest l) = c # cs" and c: "isLetter c"
    from d have "\<not> isWhitespace c"
      using hd_dropWhile [of isWhitespace "rest l"] by auto
    with c have "headToken (c # cs) =
        (\<lparr>Type = LookupIdent (takeWhile isLetter (c # cs)),
          Literal = takeWhile isLetter (c # cs)\<rparr>, dropWhile isLetter (c # cs))"
      by (simp add: headToken_Cons symbolType_letter)
    with headToken_dropWhile [of "rest l"] have h: "headToken (rest l) =
        (\<lparr>Type = LookupIdent (takeWhile isLetter (c # cs)),
          Literal = takeWhile isLetter (c # cs)\<rparr>, dropWhile isLetter (c # cs))"
      by (simp only: d)
    from reads_Inr [OF NextToken_reads [OF p] r]
    show "Literal tok = takeWhile isLetter (c # cs) \<and>
        Type tok = LookupIdent (takeWhile isLetter (c # cs)) \<and> primed l' \<and>
        rest l' = dropWhile isLetter (c # cs)"
      by (simp add: h)
  qed
  moreover have ?run
  proof (intro impI allI)
    fix i
    assume r: "run n inp = Inr (toks, lr)" and i: "i < n" "i < length (lexemes inp)"
      and c: "isLetter (hd (lexemes inp ! i))"
    from run_Inr [OF r] i have t: "toks ! i = lexToken (lexemes inp ! i)"
      by (simp add: headTokens_nth)
    from i(2) have "lexemes inp ! i \<in> set (lexemes inp)"
      by simp
    from lexemes_shape [OF this] have "lexemes inp ! i \<noteq> []"
      by simp
    with c have "lexToken (lexemes inp ! i) =
        \<lparr>Type = LookupIdent (lexemes inp ! i), Literal = lexemes inp ! i\<rparr>"
      by (cases "lexemes inp ! i") (simp_all add: lexToken_def symbolType_letter)
    with t kw [of "lexemes inp ! i"]
    show "Literal (toks ! i) = lexemes inp ! i \<and>
         (lexemes inp ! i \<in> dom keywords_map \<longrightarrow>
            keywords_map (lexemes inp ! i) = Some (Type (toks ! i)) \<and> Type (toks ! i) \<noteq> IDENT) \<and>
         (lexemes inp ! i \<notin> dom keywords_map \<longrightarrow> Type (toks ! i) = IDENT)"
      by simp
  qed
  ultimately show ?thesis
    by blast
qed

text \<open>
  The instance for a scanner of 64 bits constructed on \<open>fn main\<close>, and for the first
  lexeme of the run of three calls on \<open>let x\<close>.
\<close>

theorem keyword_precedence_witness:
  "New ''fn main'' =
     Inr \<lparr>input = ''fn main'', position = 0 :: 64 word, readPosition = 1, ch = CHR ''f''\<rparr> \<and>
   NextToken \<lparr>input = ''fn main'', position = 0 :: 64 word, readPosition = 1, ch = CHR ''f''\<rparr> =
     Inr (\<lparr>Type = FUNCTION, Literal = ''fn''\<rparr>,
          \<lparr>input = ''fn main'', position = 2, readPosition = 3, ch = CHR '' ''\<rparr>) \<and>
   primed \<lparr>input = ''fn main'', position = 0 :: 64 word, readPosition = 1, ch = CHR ''f''\<rparr> \<and>
   skipWhitespace \<lparr>input = ''fn main'', position = 0 :: 64 word, readPosition = 1, ch = CHR ''f''\<rparr> =
     Inr \<lparr>input = ''fn main'', position = 0, readPosition = 1, ch = CHR ''f''\<rparr> \<and>
   dropWhile isWhitespace
     (rest \<lparr>input = ''fn main'', position = 0 :: 64 word, readPosition = 1, ch = CHR ''f''\<rparr>) =
     ''fn main'' \<and>
   isLetter (CHR ''f'') \<and>
   ''fn'' \<in> dom keywords_map \<and> keywords_map ''fn'' = Some FUNCTION \<and> FUNCTION \<noteq> IDENT \<and>
   takeWhile isLetter ''fn main'' = ''fn'' \<and>
   rest \<lparr>input = ''fn main'', position = 2 :: 64 word, readPosition = 3, ch = CHR '' ''\<rparr> =
     '' main'' \<and>
   (run 3 ''let x'' :: error + (Token list \<times> 64 word Lexer)) =
     Inr ([\<lparr>Type = LET, Literal = ''let''\<rparr>, \<lparr>Type = IDENT, Literal = ''x''\<rparr>,
           \<lparr>Type = EOF, Literal = ''''\<rparr>],
          \<lparr>input = ''let x'', position = 6, readPosition = 7, ch = CHR 0x00\<rparr>) \<and>
   lexemes ''let x'' = [''let'', ''x''] \<and> keywords_map ''let'' = Some LET \<and> LET \<noteq> IDENT \<and>
   ''x'' \<notin> dom keywords_map"
proof -
  let ?l = "\<lparr>input = ''fn main'', position = 0 :: 64 word, readPosition = 1, ch = CHR ''f''\<rparr>"
  let ?l' = "\<lparr>input = ''fn main'', position = 2 :: 64 word, readPosition = 3, ch = CHR '' ''\<rparr>"
  let ?tok = "\<lparr>Type = FUNCTION, Literal = ''fn''\<rparr>"
  let ?toks = "[\<lparr>Type = LET, Literal = ''let''\<rparr>, \<lparr>Type = IDENT, Literal = ''x''\<rparr>,
           \<lparr>Type = EOF, Literal = ''''\<rparr>]"
  let ?lr = "\<lparr>input = ''let x'', position = 6 :: 64 word, readPosition = 7, ch = CHR 0x00\<rparr>"
  have n: "New ''fn main'' = Inr ?l"
    by code_simp
  have t: "NextToken ?l = Inr (?tok, ?l')"
    by code_simp
  have s: "skipWhitespace ?l = Inr ?l"
    by code_simp
  have c: "isLetter (ch ?l)" "isLetter (CHR ''f'')"
    by (simp_all add: isLetter_def)
  have p: "primed ?l"
    by (simp add: primed_def rest_def)
  have d: "dropWhile isWhitespace (rest ?l) = CHR ''f'' # ''n main''"
    by (simp add: rest_def isWhitespace_def)
  have k: "''fn'' \<in> dom keywords_map" "''let'' \<in> dom keywords_map" "''x'' \<notin> dom keywords_map"
    by (simp_all add: keywords_map_def)
  have r: "run 3 ''let x'' = Inr (?toks, ?lr)"
    by code_simp
  have x: "lexemes ''let x'' = [''let'', ''x'']"
    by code_simp
  have w: "takeWhile isLetter ''fn main'' = ''fn''"
    by (simp add: isLetter_def)
  note kp = keyword_precedence [where l = ?l and tok = ?tok and l' = ?l' and ?l1.0 = ?l
      and c = "CHR ''f''" and cs = "''n main''" and n = 3 and inp = "''let x''"
      and toks = ?toks and lr = ?lr]
  note kp_type = kp [THEN conjunct2, THEN conjunct2, THEN conjunct2, THEN conjunct1]
  note kp_literal = kp [THEN conjunct2, THEN conjunct2, THEN conjunct2, THEN conjunct2,
      THEN conjunct1]
  note kp_run = kp [THEN conjunct2, THEN conjunct2, THEN conjunct2, THEN conjunct2,
      THEN conjunct2]
  from kp_type [rule_format, OF t s c(1)] k(1)
  have f: "keywords_map ''fn'' = Some FUNCTION \<and> FUNCTION \<noteq> IDENT"
    by simp
  from kp_literal [rule_format, OF t p d c(2)]
  have a: "rest ?l' = dropWhile isLetter (CHR ''f'' # ''n main'')"
    by simp
  have i: "(0 :: nat) < 3" "0 < length (lexemes ''let x'')" "isLetter (hd (lexemes ''let x'' ! 0))"
    unfolding x by (simp_all add: isLetter_def)
  from kp_run [rule_format, OF r i] k(2)
  have "keywords_map ''let'' = Some LET \<and> LET \<noteq> IDENT"
    unfolding x by simp
  moreover from a have "rest ?l' = '' main''"
    by (simp add: isLetter_def)
  ultimately show ?thesis
    using n t s p d c(2) k(1,3) f w r x by (simp del: lexemes.simps)
qed

text \<open>
  C8. The invariant is stated with the \<open>+\<close> of the program, the addition of \<open>int\<close>.
  A run of \<open>n\<close> calls of \<open>NextToken\<close> on a scanner constructed by \<open>New\<close> (none included)
  returns when the length of the input and \<open>n\<close> together do not exceed the largest
  \<open>int\<close>; every run that returns leaves a state in which \<open>readPosition\<close> is
  \<open>position + 1\<close> and \<open>position\<close> is not negative; and every \<open>readChar\<close> that
  returns, the only function that moves the cursor, leaves the scanner in such a state,
  whatever the state before. In such a state \<open>readPosition\<close> is also as a number one
  more than \<open>position\<close>, unless \<open>position\<close> is the largest \<open>int\<close>: then
  \<open>position + 1\<close> is the least \<open>int\<close>, and so is \<open>readPosition\<close>.
\<close>

theorem readPosition_invariant:
  fixes l l0 l1 :: "'a::len word Lexer"
  shows
  "(int (length inp) + int n \<le> MaxInt TYPE('a) \<longrightarrow>
      (\<exists>toks' (l' :: 'a word Lexer). run n inp = Inr (toks', l'))) \<and>
   (run n inp = Inr (toks, l) \<longrightarrow>
      readPosition l = position l + 1 \<and> 0 \<le> sint (position l) \<and>
      (sint (position l) < MaxInt TYPE('a) \<longrightarrow> sint (readPosition l) = sint (position l) + 1) \<and>
      (sint (position l) = MaxInt TYPE('a) \<longrightarrow> sint (readPosition l) = - MaxInt TYPE('a) - 1)) \<and>
   (readChar l0 = Inr l1 \<longrightarrow>
      readPosition l1 = position l1 + 1 \<and> 0 \<le> sint (position l1) \<and>
      (sint (position l1) < MaxInt TYPE('a) \<longrightarrow>
         sint (readPosition l1) = sint (position l1) + 1) \<and>
      (sint (position l1) = MaxInt TYPE('a) \<longrightarrow>
         sint (readPosition l1) = - MaxInt TYPE('a) - 1))"
proof -
  have inv: "readPosition x = position x + 1 \<and> 0 \<le> sint (position x) \<and>
      (sint (position x) < MaxInt TYPE('a) \<longrightarrow> sint (readPosition x) = sint (position x) + 1) \<and>
      (sint (position x) = MaxInt TYPE('a) \<longrightarrow> sint (readPosition x) = - MaxInt TYPE('a) - 1)"
    if "primed x" for x :: "'a word Lexer"
    using that by (simp add: primed_def sint_succ sint_wrap)
  have "\<exists>toks' (l' :: 'a word Lexer). run n inp = Inr (toks', l')"
    if "int (length inp) + int n \<le> MaxInt TYPE('a)"
    using run_in_range [OF that] by blast
  moreover have "primed l" if "run n inp = Inr (toks, l)"
    using run_Inr [OF that] by simp
  moreover have "primed l1" if "readChar l0 = Inr l1"
    using that by (rule readChar_primes)
  ultimately show ?thesis
    using inv [of l] inv [of l1] by blast
qed

text \<open>
  The instance, with cursors of 64 bits, for two calls on \<open>a b\<close>, for the \<open>readChar\<close>
  of \<open>New\<close>, and for the \<open>readChar\<close> that takes \<open>position\<close> to the largest \<open>int\<close>,
  \<open>2^63 - 1\<close>.
\<close>

theorem readPosition_invariant_witness:
  "int (length ''a b'') + int 2 \<le> MaxInt TYPE(64) \<and>
   (run 2 ''a b'' :: error + (Token list \<times> 64 word Lexer)) =
     Inr ([\<lparr>Type = IDENT, Literal = ''a''\<rparr>, \<lparr>Type = IDENT, Literal = ''b''\<rparr>],
          \<lparr>input = ''a b'', position = 3, readPosition = 4, ch = CHR 0x00\<rparr>) \<and>
   (4 :: 64 word) = 3 + 1 \<and> sint (3 :: 64 word) < MaxInt TYPE(64) \<and>
   sint (4 :: 64 word) = sint (3 :: 64 word) + 1 \<and>
   readChar \<lparr>input = ''a b'', position = 0 :: 64 word, readPosition = 0, ch = CHR 0x00\<rparr> =
     Inr \<lparr>input = ''a b'', position = 0, readPosition = 1, ch = CHR ''a''\<rparr> \<and>
   (1 :: 64 word) = 0 + 1 \<and>
   readChar \<lparr>input = '''', position = 9223372036854775806 :: 64 word,
       readPosition = 9223372036854775807, ch = CHR 0x00\<rparr> =
     Inr \<lparr>input = '''', position = 9223372036854775807,
       readPosition = 9223372036854775808, ch = CHR 0x00\<rparr> \<and>
   sint (9223372036854775807 :: 64 word) = MaxInt TYPE(64) \<and>
   (9223372036854775808 :: 64 word) = 9223372036854775807 + 1 \<and>
   sint (9223372036854775808 :: 64 word) = - MaxInt TYPE(64) - 1"
proof -
  let ?toks = "[\<lparr>Type = IDENT, Literal = ''a''\<rparr>, \<lparr>Type = IDENT, Literal = ''b''\<rparr>]"
  let ?l = "\<lparr>input = ''a b'', position = 3 :: 64 word, readPosition = 4, ch = CHR 0x00\<rparr>"
  let ?before = "\<lparr>input = ''a b'', position = 0 :: 64 word, readPosition = 0, ch = CHR 0x00\<rparr>"
  let ?after = "\<lparr>input = ''a b'', position = 0 :: 64 word, readPosition = 1, ch = CHR ''a''\<rparr>"
  let ?last = "\<lparr>input = '''', position = 9223372036854775806 :: 64 word,
       readPosition = 9223372036854775807, ch = CHR 0x00\<rparr>"
  let ?wrapped = "\<lparr>input = '''', position = 9223372036854775807 :: 64 word,
       readPosition = 9223372036854775808, ch = CHR 0x00\<rparr>"
  have b: "int (length ''a b'') + int 2 \<le> MaxInt TYPE(64)"
    by (simp add: MaxInt_def)
  have r: "run 2 ''a b'' = Inr (?toks, ?l)"
    by code_simp
  have c: "readChar ?before = Inr ?after"
    by code_simp
  have w: "readChar ?last = Inr ?wrapped"
    by code_simp
  have m: "sint (position ?l) < MaxInt TYPE(64)" "sint (position ?wrapped) = MaxInt TYPE(64)"
    by (simp_all add: MaxInt_def)
  from readPosition_invariant [where inp = "''a b''" and n = 2 and toks = ?toks and l = ?l
      and ?l0.0 = ?before and ?l1.0 = ?after] b r c m(1)
  have "readPosition ?l = position ?l + 1" "sint (readPosition ?l) = sint (position ?l) + 1"
    "readPosition ?after = position ?after + 1"
    by blast+
  moreover from readPosition_invariant [where inp = "''a b''" and n = 2 and toks = ?toks
      and l = ?l and ?l0.0 = ?last and ?l1.0 = ?wrapped] w m(2)
  have "readPosition ?wrapped = position ?wrapped + 1"
    "sint (readPosition ?wrapped) = - MaxInt TYPE(64) - 1"
    by blast+
  ultimately show ?thesis
    using b r c w m by simp
qed

text \<open>
  C9. \<open>LookupIdent\<close> maps \<open>fn\<close> to FUNCTION and \<open>let\<close> to LET and every other string to
  IDENT, and the three tags differ. Every token that \<open>NextToken\<close> returns, in any state
  and so in every run from construction that returns, has one of the twenty tags of the
  vocabulary as type; a token of type FUNCTION has the literal \<open>fn\<close> and a token of type
  LET the literal \<open>let\<close>. A run of \<open>n\<close> calls from construction returns when the
  length of the input and \<open>n\<close> together do not exceed the largest \<open>int\<close>.
\<close>

theorem LookupIdent_keywords:
  fixes l0 l1 l :: "'a::len word Lexer"
  shows
  "LookupIdent ''fn'' = FUNCTION \<and> LookupIdent ''let'' = LET \<and>
   (s \<noteq> ''fn'' \<longrightarrow> s \<noteq> ''let'' \<longrightarrow> LookupIdent s = IDENT) \<and>
   FUNCTION \<noteq> IDENT \<and> LET \<noteq> IDENT \<and> FUNCTION \<noteq> LET \<and>
   (NextToken l0 = Inr (tok0, l1) \<longrightarrow>
      Type tok0 \<in> {ILLEGAL, EOF, IDENT, INT_tok, ASSIGN, PLUS, MINUS, BANG, SLASH, ASTERISK,
        LT, GT, SEMICOLON, COMMA, LPAREN, RPAREN, LBRACE, RBRACE, FUNCTION, LET} \<and>
      (Type tok0 = FUNCTION \<longrightarrow> Literal tok0 = ''fn'') \<and>
      (Type tok0 = LET \<longrightarrow> Literal tok0 = ''let'')) \<and>
   (run n inp = Inr (toks, l) \<longrightarrow>
      (\<forall>tok\<in>set toks.
         Type tok \<in> {ILLEGAL, EOF, IDENT, INT_tok, ASSIGN, PLUS, MINUS, BANG, SLASH, ASTERISK,
           LT, GT, SEMICOLON, COMMA, LPAREN, RPAREN, LBRACE, RBRACE, FUNCTION, LET} \<and>
         (Type tok = FUNCTION \<longrightarrow> Literal tok = ''fn'') \<and>
         (Type tok = LET \<longrightarrow> Literal tok = ''let''))) \<and>
   (int (length inp) + int n \<le> MaxInt TYPE('a) \<longrightarrow>
      (\<exists>toks' (l' :: 'a word Lexer). run n inp = Inr (toks', l')))"
  (is "?fn \<and> ?let \<and> ?other \<and> ?d1 \<and> ?d2 \<and> ?d3 \<and> ?call \<and> ?run \<and> ?returns")
proof -
  have "?fn" "?let" "?other"
    by (simp_all add: LookupIdent_cases)
  moreover have "?d1" "?d2" "?d3"
    by (simp_all add: tag_defs)
  moreover have "?call \<and> ?run"
  proof -
    let ?P = "\<lambda>tok. Type tok \<in> {ILLEGAL, EOF, IDENT, INT_tok, ASSIGN, PLUS, MINUS, BANG, SLASH,
           ASTERISK, LT, GT, SEMICOLON, COMMA, LPAREN, RPAREN, LBRACE, RBRACE, FUNCTION, LET} \<and>
         (Type tok = FUNCTION \<longrightarrow> Literal tok = ''fn'') \<and>
         (Type tok = LET \<longrightarrow> Literal tok = ''let'')"
    have one: "?P tok" if "NextToken x = Inr (tok, x')" for x x' :: "'a word Lexer" and tok
      using that
    proof (cases rule: NextToken_cases)
      case (symbol y t)
      from symbolType_tags [OF symbol(2)] have "t \<noteq> FUNCTION" "t \<noteq> LET"
        "t \<in> {ILLEGAL, EOF, IDENT, INT_tok, ASSIGN, PLUS, MINUS, BANG, SLASH, ASTERISK,
          LT, GT, SEMICOLON, COMMA, LPAREN, RPAREN, LBRACE, RBRACE, FUNCTION, LET}"
        by (auto simp: tag_defs)
      with symbol(3) show ?thesis
        by (simp add: newToken_def)
    next
      case (letters y)
      then show ?thesis
        by (simp add: LookupIdent_cases tag_defs split: if_splits)
    next
      case digits
      then show ?thesis
        by (simp add: tag_defs)
    next
      case eof
      then show ?thesis
        by (simp add: tag_defs)
    next
      case (illegal y)
      then show ?thesis
        by (simp add: newToken_def tag_defs)
    qed
    have "\<forall>tok\<in>set toks. ?P tok" if "run n inp = Inr (toks, l)"
    proof
      fix tok assume "tok \<in> set toks"
      from run_all [where P = ?P, OF one that this] show "?P tok" .
    qed
    with one [of l0 tok0 l1] show ?thesis
      by blast
  qed
  moreover have ?returns
  proof
    assume "int (length inp) + int n \<le> MaxInt TYPE('a)"
    from run_in_range [OF this] show "\<exists>toks' (l' :: 'a word Lexer). run n inp = Inr (toks', l')"
      by blast
  qed
  ultimately show ?thesis
    by blast
qed

text \<open>
  The instance for the string \<open>x\<close> and a scanner of 64 bits constructed on \<open>fn\<close>.
\<close>

theorem LookupIdent_keywords_witness:
  "''x'' \<noteq> ''fn'' \<and> ''x'' \<noteq> ''let'' \<and> LookupIdent ''x'' = IDENT \<and>
   New ''fn'' = Inr \<lparr>input = ''fn'', position = 0 :: 64 word, readPosition = 1, ch = CHR ''f''\<rparr> \<and>
   NextToken \<lparr>input = ''fn'', position = 0 :: 64 word, readPosition = 1, ch = CHR ''f''\<rparr> =
     Inr (\<lparr>Type = FUNCTION, Literal = ''fn''\<rparr>,
          \<lparr>input = ''fn'', position = 2, readPosition = 3, ch = CHR 0x00\<rparr>) \<and>
   int (length ''fn'') + int 2 \<le> MaxInt TYPE(64) \<and>
   (run 2 ''fn'' :: error + (Token list \<times> 64 word Lexer)) =
     Inr ([\<lparr>Type = FUNCTION, Literal = ''fn''\<rparr>, \<lparr>Type = EOF, Literal = ''''\<rparr>],
          \<lparr>input = ''fn'', position = 3, readPosition = 4, ch = CHR 0x00\<rparr>) \<and>
   Type \<lparr>Type = FUNCTION, Literal = ''fn''\<rparr> = FUNCTION \<and>
   Literal \<lparr>Type = FUNCTION, Literal = ''fn''\<rparr> = ''fn''"
proof -
  let ?a = "\<lparr>input = ''fn'', position = 0 :: 64 word, readPosition = 1, ch = CHR ''f''\<rparr>"
  let ?b = "\<lparr>input = ''fn'', position = 2 :: 64 word, readPosition = 3, ch = CHR 0x00\<rparr>"
  let ?c = "\<lparr>input = ''fn'', position = 3 :: 64 word, readPosition = 4, ch = CHR 0x00\<rparr>"
  let ?toks = "[\<lparr>Type = FUNCTION, Literal = ''fn''\<rparr>, \<lparr>Type = EOF, Literal = ''''\<rparr>]"
  have n: "New ''fn'' = Inr ?a"
    by code_simp
  have call: "NextToken ?a = Inr (\<lparr>Type = FUNCTION, Literal = ''fn''\<rparr>, ?b)"
    by code_simp
  have r: "run 2 ''fn'' = Inr (?toks, ?c)"
    by code_simp
  have b: "int (length ''fn'') + int 2 \<le> MaxInt TYPE(64)"
    by (simp add: MaxInt_def)
  note li = LookupIdent_keywords [where s = "''x''" and ?l0.0 = ?a
      and ?tok0.0 = "\<lparr>Type = FUNCTION, Literal = ''fn''\<rparr>" and ?l1.0 = ?b and n = 2
      and inp = "''fn''" and toks = ?toks and l = ?c]
  from li have "''x'' \<noteq> ''fn'' \<longrightarrow> ''x'' \<noteq> ''let'' \<longrightarrow> LookupIdent ''x'' = IDENT"
    by (rule conjunct2 [THEN conjunct2, THEN conjunct1])
  then have x: "LookupIdent ''x'' = IDENT"
    by simp
  from li [THEN conjunct2, THEN conjunct2, THEN conjunct2, THEN conjunct2, THEN conjunct2,
      THEN conjunct2, THEN conjunct1, rule_format, OF call]
  have "Type \<lparr>Type = FUNCTION, Literal = ''fn''\<rparr> = FUNCTION \<longrightarrow>
      Literal \<lparr>Type = FUNCTION, Literal = ''fn''\<rparr> = ''fn''"
    by blast
  from li [THEN conjunct2, THEN conjunct2, THEN conjunct2, THEN conjunct2, THEN conjunct2,
      THEN conjunct2, THEN conjunct2, THEN conjunct1, rule_format, OF r, of "hd ?toks"]
  have "Type (hd ?toks) = FUNCTION \<longrightarrow> Literal (hd ?toks) = ''fn''"
    by simp
  from li [THEN conjunct2, THEN conjunct2, THEN conjunct2, THEN conjunct2, THEN conjunct2,
      THEN conjunct2, THEN conjunct2, THEN conjunct2, rule_format, OF b]
  have "\<exists>toks' (l' :: 64 word Lexer). run 2 ''fn'' = Inr (toks', l')" .
  with x n call r b show ?thesis
    by simp
qed

text \<open>
  C10. The property: the literal of a returned token is empty exactly when its type is
  EOF, and every fixed-symbol and every ILLEGAL token has a literal of exactly one
  character. The code departs from it for a byte from 0x80 on: \<open>newToken\<close> builds the
  literal with \<open>string(ch)\<close>, which is the UTF-8 encoding of the code point, so the
  literal of the ILLEGAL token for the input byte 0xF8 is the two bytes 0xC3 and 0xB8,
  not the one character of the input.
\<close>

theorem illegal_literal_two_bytes:
  "(run 1 [CHR 0xF8] :: error + (Token list \<times> 64 word Lexer)) =
     Inr ([\<lparr>Type = ILLEGAL, Literal = [CHR 0xC3, CHR 0xB8]\<rparr>],
          \<lparr>input = [CHR 0xF8], position = 1, readPosition = 2, ch = CHR 0x00\<rparr>) \<and>
   length [CHR 0xC3, CHR 0xB8] = 2"
  by code_simp

end
